theory Spec2Isabelle
  imports Complex_Main "HOL-Library.AList" "HOL-Library.Sublist"
begin

section \<open>Python values used by the bridge\<close>

text \<open>
  A Python \<open>str\<close> that ends up on the display is a list of Unicode code points, since the
  substitution table \<open>REPLACED\<close> produces glyphs beyond Latin-1. \<open>ustr\<close> embeds a literal.
\<close>

type_synonym ustring = "nat list"

definition ustr :: "string \<Rightarrow> ustring" where
  "ustr s = map of_char s"

text \<open>The exceptions that the modelled functions can raise.\<close>

datatype error = IndexError | KeyError | ValueError | UnicodeEncodeError | OverflowError

text \<open>A loop whose body may raise: the first exception ends the loop.\<close>

fun foldE :: "('s \<Rightarrow> 'a \<Rightarrow> error + 's) \<Rightarrow> 'a list \<Rightarrow> 's \<Rightarrow> error + 's" where
  "foldE f [] s = Inr s"
| "foldE f (x # xs) s = (case f s x of Inl e \<Rightarrow> Inl e | Inr s' \<Rightarrow> foldE f xs s')"

text \<open>\<open>xs[start:end]\<close> with Python's clamping of both bounds.\<close>

definition py_slice :: "'a list \<Rightarrow> int \<Rightarrow> int \<Rightarrow> 'a list" where
  "py_slice xs start end =
     (let n = int (length xs);
          s = (if start < 0 then max 0 (start + n) else min start n);
          e = (if end < 0 then max 0 (end + n) else min end n)
      in take (nat (e - s)) (drop (nat s) xs))"

text \<open>\<open>range(a, b)\<close>.\<close>

definition py_range :: "int \<Rightarrow> int \<Rightarrow> int list" where
  "py_range a b = [a..b - 1]"

text \<open>\<open>s.ljust(w)\<close>: pad with spaces on the right up to width \<open>w\<close>.\<close>

definition ljust :: "nat \<Rightarrow> ustring \<Rightarrow> ustring" where
  "ljust w s = s @ replicate (w - length s) 32"

section \<open>MCDU display primitives\<close>

text \<open>
  A cell is a Python list: \<open>[]\<close> when empty, \<open>[glyph, colour, size]\<close> when written. The
  grid is a list of rows; \<open>empty_grid\<close> builds every row as a list of its own, and no function
  of the script shares a row between two positions, so the grid is modelled as a value.
\<close>

datatype json = JString ustring | JNumber int | JArray "json list"
  | JObject "(ustring \<times> json) list"

type_synonym cell = "json list"
type_synonym grid = "cell list list"

definition CDU_COLUMNS :: int where "CDU_COLUMNS = 24"
definition CDU_ROWS :: int where "CDU_ROWS = 14"
definition LARGE :: int where "LARGE = 0"
definition SMALL :: int where "SMALL = 1"

definition empty_grid :: grid where
  "empty_grid = map (\<lambda>_. map (\<lambda>_. []) (py_range 0 CDU_COLUMNS)) (py_range 0 CDU_ROWS)"

definition REPLACED :: "(nat \<times> nat) list" where
  "REPLACED =
     [(0x2190, 0x2190), (0x2192, 0x2192), (0x2191, 0x2191), (0x2193, 0x2193),
      (0x5F, 0x2610), (0xB0, 0xB0), (0x26, 0x394), (0xA0, 0x20),
      (0x7B, 0x2190), (0x7D, 0x2192), (0x7C, 0x2F)]"

definition REPLACED_get :: "nat \<Rightarrow> nat" where
  "REPLACED_get ch = (case map_of REPLACED ch of Some g \<Rightarrow> g | None \<Rightarrow> ch)"

text \<open>\<open>grid[r][c] = v\<close>: both subscripts raise IndexError out of range and count from the
  end when negative.\<close>

definition py_index :: "'a list \<Rightarrow> int \<Rightarrow> error + nat" where
  "py_index xs i =
     (let n = int (length xs); j = (if i < 0 then n + i else i)
      in if 0 \<le> j \<and> j < n then Inr (nat j) else Inl IndexError)"

definition set_cell :: "grid \<Rightarrow> int \<Rightarrow> int \<Rightarrow> cell \<Rightarrow> error + grid" where
  "set_cell grid r c v =
     (case py_index grid r of
        Inl e \<Rightarrow> Inl e
      | Inr i \<Rightarrow>
          (case py_index (grid ! i) c of
             Inl e \<Rightarrow> Inl e
           | Inr j \<Rightarrow> Inr (grid[i := (grid ! i)[j := v]])))"

definition put_char :: "int \<Rightarrow> int \<Rightarrow> ustring \<Rightarrow> int \<Rightarrow> grid \<Rightarrow> nat \<times> nat \<Rightarrow> error + grid" where
  "put_char row col colour sz grid p =
     (let cc = col + int (fst p) in
      if 0 \<le> cc \<and> cc < CDU_COLUMNS
      then set_cell grid row cc [JString [REPLACED_get (snd p)], JString colour, JNumber sz]
      else Inr grid)"

definition put_text :: "grid \<Rightarrow> ustring \<Rightarrow> int \<Rightarrow> int \<Rightarrow> ustring \<Rightarrow> int \<Rightarrow> error + grid" where
  "put_text grid text row col colour sz =
     (if \<not> (0 \<le> row \<and> row < CDU_ROWS) then Inr grid
      else foldE (put_char row col colour sz) (enumerate 0 text) grid)"

definition put_text_center :: "grid \<Rightarrow> ustring \<Rightarrow> int \<Rightarrow> ustring \<Rightarrow> int \<Rightarrow> error + grid" where
  "put_text_center grid text row colour sz =
     (let text' = py_slice text 0 CDU_COLUMNS;
          col = (CDU_COLUMNS - int (length text')) div 2
      in put_text grid text' row col colour sz)"

text \<open>
  \<open>json.dumps\<close> is the library's encoder; \<open>grid_to_payload\<close> is modelled by the document
  it encodes.
\<close>

definition grid_to_payload :: "grid \<Rightarrow> json" where
  "grid_to_payload grid =
     JObject [(ustr ''Target'', JString (ustr ''Display'')),
              (ustr ''Data'', JArray (map JArray (concat grid)))]"

section \<open>Rolling list layout\<close>

definition LEFT_COL_START :: int where "LEFT_COL_START = 0"
definition RIGHT_COL_START :: int where "RIGHT_COL_START = 13"
definition CONTENT_FIRST_ROW :: int where "CONTENT_FIRST_ROW = 0"
definition CONTENT_LAST_ROW :: int where "CONTENT_LAST_ROW = CDU_ROWS - 2"
definition MAX_ROWS :: int where "MAX_ROWS = CONTENT_LAST_ROW - CONTENT_FIRST_ROW + 1"

definition clear_cell :: "ustring \<Rightarrow> int \<Rightarrow> int \<Rightarrow> grid \<Rightarrow> int \<Rightarrow> error + grid" where
  "clear_cell colour sz r grid c = set_cell grid r c [JString (ustr '' ''), JString colour, JNumber sz]"

definition clear_area_with_spaces ::
  "grid \<Rightarrow> int \<Rightarrow> int \<Rightarrow> int \<Rightarrow> int \<Rightarrow> ustring \<Rightarrow> int \<Rightarrow> error + grid" where
  "clear_area_with_spaces grid r0 r1 c0 c1 colour sz =
     foldE (\<lambda>g r. foldE (clear_cell colour sz r) (py_range c0 c1) g) (py_range r0 (r1 + 1)) grid"

definition compact_labels :: "(int \<times> 'l) list \<Rightarrow> 'l list" where
  "compact_labels pairs = [label. (val, label) \<leftarrow> pairs, val = 1]"

text \<open>One of the two loops of \<open>draw_columns\<close>: \<open>w\<close> is the field width (12 left, 11 right)
  and \<open>c\<close> the start column; the loop leaves once \<open>row\<close> has passed the last content row.\<close>

fun draw_column :: "nat \<Rightarrow> int \<Rightarrow> grid \<Rightarrow> ustring list \<Rightarrow> int \<Rightarrow> error + grid" where
  "draw_column w c grid [] row = Inr grid"
| "draw_column w c grid (lbl # rest) row =
     (case put_text grid (ljust w (py_slice lbl 0 (int w))) row c (ustr ''a'') LARGE of
        Inl e \<Rightarrow> Inl e
      | Inr g \<Rightarrow> (if row + 1 > CONTENT_LAST_ROW then Inr g else draw_column w c g rest (row + 1)))"

definition draw_columns :: "grid \<Rightarrow> ustring list \<Rightarrow> ustring list \<Rightarrow> error + grid" where
  "draw_columns grid left_labels right_labels =
     (case clear_area_with_spaces grid CONTENT_FIRST_ROW CONTENT_LAST_ROW 0 CDU_COLUMNS (ustr ''w'') 0 of
        Inl e \<Rightarrow> Inl e
      | Inr g0 \<Rightarrow>
          (case draw_column 12 LEFT_COL_START g0 (py_slice left_labels 0 MAX_ROWS) CONTENT_FIRST_ROW of
             Inl e \<Rightarrow> Inl e
           | Inr g1 \<Rightarrow>
               draw_column 11 RIGHT_COL_START g1 (py_slice right_labels 0 MAX_ROWS) CONTENT_FIRST_ROW))"

text \<open>The paging step of the main loop: \<open>labels[start:end]\<close> with \<open>page_size = 6\<close>.\<close>

definition paging :: "int \<Rightarrow> 'l list \<Rightarrow> 'l list" where
  "paging cdsPage labels =
     (let page_size = 6; start = cdsPage * page_size; end = start + page_size
      in py_slice labels start end)"

section \<open>Value normalization\<close>

text \<open>
  A Python \<open>float\<close> is a finite rational (every finite double is one), an infinity or NaN.
  Comparing with a constant follows IEEE 754: every comparison with NaN is false.
\<close>

datatype pyfloat = Finite rat | PosInf | NegInf | NaN















section \<open>Variable access layer\<close>

record SimVariable =
  var_id :: nat
  var_name :: string
  float_value :: "pyfloat option"
  initialized :: bool

text \<open>The calls made on the SimConnect library, in the order they are made.\<close>

datatype transport_call =
    MapClientDataNameToID string nat
  | CreateClientData nat nat nat
  | AddToClientDataDefinition nat nat nat
  | RequestClientData nat nat nat
  | SetClientData nat nat nat string

text \<open>
  A notification as the handler sees it: the definition id and the float that
  \<open>round(struct.unpack('<f', ...)[0], 5)\<close> yields from its first data word.
\<close>

record client_data =
  dwDefineID :: nat
  dwData_float :: pyfloat

text \<open>
  The two dictionaries are association lists in insertion order. \<open>incoming\<close> holds the
  notifications that the dispatch thread delivers during each coming \<open>sleep(0.01)\<close>, and
  \<open>sleeps\<close> counts the sleeps done.
\<close>

record vr_state =
  sim_vars :: "(nat \<times> SimVariable) list"
  sim_var_name_to_id :: "(string \<times> nat) list"
  calls :: "transport_call list"
  incoming :: "client_data list list"
  sleeps :: nat

definition CLIENT_DATA_AREA_LVARS :: nat where "CLIENT_DATA_AREA_LVARS = 0"
definition CLIENT_DATA_AREA_CMD :: nat where "CLIENT_DATA_AREA_CMD = 1"
definition CLIENT_DATA_AREA_RESPONSE :: nat where "CLIENT_DATA_AREA_RESPONSE = 2"
definition FLAG_DEFAULT :: nat where "FLAG_DEFAULT = 0"
definition DATA_STRING_SIZE :: nat where "DATA_STRING_SIZE = 256"
definition DATA_STRING_OFFSET :: nat where "DATA_STRING_OFFSET = 0"
definition DATA_STRING_DEFINITION_ID :: nat where "DATA_STRING_DEFINITION_ID = 0"
definition sizeof_FLOAT :: nat where "sizeof_FLOAT = 4"

definition call :: "transport_call \<Rightarrow> vr_state \<Rightarrow> vr_state" where
  "call c st = st\<lparr>calls := calls st @ [c]\<rparr>"

definition add_to_client_data_definition :: "nat \<Rightarrow> nat \<Rightarrow> nat \<Rightarrow> vr_state \<Rightarrow> vr_state" where
  "add_to_client_data_definition definition_id offset sz st =
     call (AddToClientDataDefinition definition_id offset sz) st"

definition subscribe_to_data_change :: "nat \<Rightarrow> nat \<Rightarrow> nat \<Rightarrow> vr_state \<Rightarrow> vr_state" where
  "subscribe_to_data_change data_area_id request_id definition_id st =
     call (RequestClientData data_area_id request_id definition_id) st"

definition send_data :: "nat \<Rightarrow> nat \<Rightarrow> nat \<Rightarrow> string \<Rightarrow> vr_state \<Rightarrow> vr_state" where
  "send_data data_area_id definition_id sz dataBytes st =
     call (SetClientData data_area_id definition_id sz dataBytes) st"

text \<open>
  \<open>bytearray(command, "ascii")\<close> raises UnicodeEncodeError on a character above 127, and
  \<open>bytearray(n)\<close> raises ValueError on a negative \<open>n\<close>.
\<close>

definition send_command :: "string \<Rightarrow> vr_state \<Rightarrow> error option \<times> vr_state" where
  "send_command command st =
     (if \<exists>c \<in> set command. (of_char c :: nat) > 127 then (Some UnicodeEncodeError, st)
      else if DATA_STRING_SIZE < length command then (Some ValueError, st)
      else (None, send_data CLIENT_DATA_AREA_CMD DATA_STRING_DEFINITION_ID DATA_STRING_SIZE
                    (command @ replicate (DATA_STRING_SIZE - length command) (CHR 0x00)) st))"

definition initialize_client_data_areas :: "vr_state \<Rightarrow> vr_state" where
  "initialize_client_data_areas st =
     subscribe_to_data_change CLIENT_DATA_AREA_RESPONSE DATA_STRING_DEFINITION_ID DATA_STRING_DEFINITION_ID
       (add_to_client_data_definition DATA_STRING_DEFINITION_ID DATA_STRING_OFFSET DATA_STRING_SIZE
         (call (CreateClientData CLIENT_DATA_AREA_RESPONSE DATA_STRING_SIZE FLAG_DEFAULT)
           (call (MapClientDataNameToID ''MobiFlight.Response'' CLIENT_DATA_AREA_RESPONSE)
             (call (CreateClientData CLIENT_DATA_AREA_CMD DATA_STRING_SIZE FLAG_DEFAULT)
               (call (MapClientDataNameToID ''MobiFlight.Command'' CLIENT_DATA_AREA_CMD)
                 (call (CreateClientData CLIENT_DATA_AREA_LVARS 4096 FLAG_DEFAULT)
                   (call (MapClientDataNameToID ''MobiFlight.LVars'' CLIENT_DATA_AREA_LVARS) st)))))))"

text \<open>\<open>MobiFlightVariableRequests.__init__\<close>, given what the dispatch thread will deliver.\<close>

definition vr_init :: "client_data list list \<Rightarrow> vr_state" where
  "vr_init env =
     initialize_client_data_areas
       \<lparr>sim_vars = [], sim_var_name_to_id = [], calls = [], incoming = env, sleeps = 0\<rparr>"

definition client_data_callback_handler :: "client_data \<Rightarrow> vr_state \<Rightarrow> vr_state" where
  "client_data_callback_handler cd st =
     (case map_of (sim_vars st) (dwDefineID cd) of
        Some sim_var \<Rightarrow>
          st\<lparr>sim_vars := AList.update (dwDefineID cd)
                (sim_var\<lparr>initialized := True, float_value := Some (dwData_float cd)\<rparr>) (sim_vars st)\<rparr>
      | None \<Rightarrow> st)"

text \<open>\<open>sleep(0.01)\<close>: the notifications due in this interval reach the handler.\<close>

definition sleep10ms :: "vr_state \<Rightarrow> vr_state" where
  "sleep10ms st =
     (case incoming st of
        [] \<Rightarrow> st\<lparr>sleeps := sleeps st + 1\<rparr>
      | batch # rest \<Rightarrow>
          (fold client_data_callback_handler batch st)\<lparr>incoming := rest, sleeps := sleeps st + 1\<rparr>)"

text \<open>The first branch of \<open>get\<close>: a name not seen yet gets the next identifier.\<close>

definition add_new_variable :: "string \<Rightarrow> vr_state \<Rightarrow> error option \<times> vr_state" where
  "add_new_variable variableString st =
     (let ident = length (sim_vars st) + 1;
          st1 = st\<lparr>sim_vars := AList.update ident
                  \<lparr>var_id = ident, var_name = variableString, float_value = None, initialized = False\<rparr>
                  (sim_vars st)\<rparr>;
          st2 = st1\<lparr>sim_var_name_to_id := AList.update variableString ident (sim_var_name_to_id st1)\<rparr>;
          offset = (ident - 1) * sizeof_FLOAT;
          st3 = add_to_client_data_definition ident offset sizeof_FLOAT st2;
          st4 = subscribe_to_data_change CLIENT_DATA_AREA_LVARS ident ident st3
      in send_command (''MF.SimVars.Add.'' @ variableString) st4)"

text \<open>The wait loop of \<open>get\<close>; it returns \<open>wait_counter\<close> with the state.\<close>

function wait_loop :: "nat \<Rightarrow> nat \<Rightarrow> vr_state \<Rightarrow> nat \<times> vr_state" where
  "wait_loop variable_id wait_counter st =
     (if wait_counter < 50 then
        (case map_of (sim_vars st) variable_id of
           Some sim_var \<Rightarrow>
             (if float_value sim_var = None
              then wait_loop variable_id (wait_counter + 1) (sleep10ms st)
              else (wait_counter, st))
         | None \<Rightarrow> (wait_counter, st))
      else (wait_counter, st))"
  by pat_completeness auto
termination
  by (relation "measure (\<lambda>(variable_id, wait_counter, st). 50 - wait_counter)") auto

declare wait_loop.simps [simp del]

text \<open>
  A function that raises returns the exception with the state as it is then: what was
  assigned before the raise stays assigned. The value \<open>None\<close> of \<open>get\<close> is Python's None.
\<close>

definition get :: "string \<Rightarrow> vr_state \<Rightarrow> (error + pyfloat option) \<times> vr_state" where
  "get variableString st =
     (let (exc, st1) =
            (if map_of (sim_var_name_to_id st) variableString = None
             then add_new_variable variableString st else (None, st))
      in case exc of
           Some e \<Rightarrow> (Inl e, st1)
         | None \<Rightarrow>
             (case map_of (sim_var_name_to_id st1) variableString of
                None \<Rightarrow> (Inl KeyError, st1)
              | Some variable_id \<Rightarrow>
                  (case map_of (sim_vars st1) variable_id of
                     None \<Rightarrow> (Inl KeyError, st1)
                   | Some _ \<Rightarrow>
                       (let (wait_counter, st2) = wait_loop variable_id 0 st1 in
                        (case map_of (sim_vars st2) variable_id of
                           None \<Rightarrow> (Inl KeyError, st2)
                         | Some sim_var \<Rightarrow>
                             (if float_value sim_var = None \<and> initialized sim_var
                              then (Inr (Some (Finite 0)),
                                    st2\<lparr>sim_vars := AList.update variable_id
                                           (sim_var\<lparr>float_value := Some (Finite 0)\<rparr>) (sim_vars st2)\<rparr>)
                              else (Inr (float_value sim_var), st2)))))))"

definition clear_sim_variables :: "vr_state \<Rightarrow> error option \<times> vr_state" where
  "clear_sim_variables st =
     send_command ''MF.SimVars.Clear'' (st\<lparr>sim_vars := [], sim_var_name_to_id := []\<rparr>)"

section \<open>Persistent WebSocket\<close>

text \<open>
  What a call on the websocket library can raise: the two classes that \<open>send_grid\<close>
  catches, another subclass of \<open>Exception\<close>, and an exception outside \<open>Exception\<close>.
\<close>

datatype exn = WebSocketException | OSError | OtherException | KeyboardInterrupt

definition is_Exception :: "exn \<Rightarrow> bool" where
  "is_Exception e = (e \<noteq> KeyboardInterrupt)"

text \<open>The calls on the library; a connection is named by the number of the connect
  that made it.\<close>

datatype ws_call = Connect nat | SetTimeout nat | Send nat json | Ping nat | Close nat

text \<open>
  \<open>ws\<close> is the handle (\<open>None\<close> when there is no connection). \<open>outcomes\<close> says for each
  coming library call whether it raises (a call beyond the list succeeds), and \<open>trace\<close>
  records each call made with its outcome.
\<close>

record McduSocket =
  ws :: "nat option"
  last_ping :: rat
  ping_interval :: rat
  outcomes :: "exn option list"
  trace :: "(ws_call \<times> exn option) list"
  next_handle :: nat

definition McduSocket_init :: "exn option list \<Rightarrow> McduSocket" where
  "McduSocket_init env =
     \<lparr>ws = None, last_ping = 0, ping_interval = 20, outcomes = env, trace = [], next_handle = 0\<rparr>"

definition lib_call :: "ws_call \<Rightarrow> McduSocket \<Rightarrow> exn option \<times> McduSocket" where
  "lib_call c s =
     (case outcomes s of
        [] \<Rightarrow> (None, s\<lparr>trace := trace s @ [(c, None)]\<rparr>)
      | out # rest \<Rightarrow> (out, s\<lparr>outcomes := rest, trace := trace s @ [(c, out)]\<rparr>))"

definition connect :: "McduSocket \<Rightarrow> exn option \<times> McduSocket" where
  "connect s =
     (let h = next_handle s; (r, s1) = lib_call (Connect h) (s\<lparr>next_handle := h + 1\<rparr>) in
      case r of
        Some e \<Rightarrow> (Some e, s1)
      | None \<Rightarrow> lib_call (SetTimeout h) (s1\<lparr>ws := Some h\<rparr>))"

definition ensure :: "McduSocket \<Rightarrow> exn option \<times> McduSocket" where
  "ensure s = (if ws s = None then connect s else (None, s))"

text \<open>\<open>try: self.ws.close() except Exception: pass\<close>, then \<open>self.ws = None\<close>.\<close>

definition close_quietly :: "McduSocket \<Rightarrow> exn option \<times> McduSocket" where
  "close_quietly s =
     (case ws s of
        None \<Rightarrow> (None, s)
      | Some h \<Rightarrow>
          (let (r, s1) = lib_call (Close h) s in
           case r of
             None \<Rightarrow> (None, s1\<lparr>ws := None\<rparr>)
           | Some e \<Rightarrow> (if is_Exception e then (None, s1\<lparr>ws := None\<rparr>) else (Some e, s1))))"

text \<open>\<open>now\<close> is the value of \<open>time()\<close>. Without a connection \<open>self.ws.ping\<close> raises
  AttributeError, which the \<open>except Exception\<close> clause swallows like any other.\<close>

definition maybe_ping :: "rat \<Rightarrow> McduSocket \<Rightarrow> exn option \<times> McduSocket" where
  "maybe_ping now s =
     (if now - last_ping s \<ge> ping_interval s then
        (case ws s of
           None \<Rightarrow> (None, s)
         | Some h \<Rightarrow>
             (let (r, s1) = lib_call (Ping h) s in
              case r of
                None \<Rightarrow> (None, s1\<lparr>last_ping := now\<rparr>)
              | Some e \<Rightarrow> (if is_Exception e then close_quietly s1 else (Some e, s1))))
      else (None, s))"

text \<open>The body of the \<open>try\<close> in \<open>send_grid\<close>: the first exception leaves it.\<close>

definition try_send :: "json \<Rightarrow> rat \<Rightarrow> McduSocket \<Rightarrow> exn option \<times> McduSocket" where
  "try_send payload now s =
     (let (r, s1) = ensure s in
      case r of
        Some e \<Rightarrow> (Some e, s1)
      | None \<Rightarrow>
          (case ws s1 of
             None \<Rightarrow> (Some OtherException, s1)
           | Some h \<Rightarrow>
               (let (r2, s2) = lib_call (Send h payload) s1 in
                case r2 of
                  Some e \<Rightarrow> (Some e, s2)
                | None \<Rightarrow> maybe_ping now s2)))"

text \<open>
  One pass of the loop \<open>for attempt in (1, 2)\<close>: \<open>Sent\<close> is the \<open>return\<close> in the
  \<open>try\<close>, \<open>Failed\<close> the end of the \<open>except\<close> clause, \<open>Raised\<close> an exception that leaves
  \<open>send_grid\<close>.
\<close>

datatype attempt_result = Sent | Failed | Raised exn

definition attempt :: "json \<Rightarrow> rat \<Rightarrow> McduSocket \<Rightarrow> attempt_result \<times> McduSocket" where
  "attempt payload now s =
     (let (r, s1) = try_send payload now s in
      case r of
        None \<Rightarrow> (Sent, s1)
      | Some e \<Rightarrow>
          (if e = WebSocketException \<or> e = OSError then
             (let (r2, s2) = close_quietly s1 in
              case r2 of
                Some e2 \<Rightarrow> (Raised e2, s2)
              | None \<Rightarrow> (Failed, s2\<lparr>ws := None\<rparr>))
           else (Raised e, s1)))"

fun send_attempts :: "nat list \<Rightarrow> json \<Rightarrow> rat \<Rightarrow> McduSocket \<Rightarrow> exn option \<times> McduSocket" where
  "send_attempts [] payload now s = (None, s)"
| "send_attempts (a # rest) payload now s =
     (case attempt payload now s of
        (Sent, s1) \<Rightarrow> (None, s1)
      | (Failed, s1) \<Rightarrow> send_attempts rest payload now s1
      | (Raised e, s1) \<Rightarrow> (Some e, s1))"

text \<open>\<open>send_grid\<close> returns the exception that leaves it, if any. \<open>time()\<close> is read at most
  once in a call (after the send that succeeded), so one value \<open>now\<close> serves the call.\<close>

definition send_grid :: "grid \<Rightarrow> rat \<Rightarrow> McduSocket \<Rightarrow> exn option \<times> McduSocket" where
  "send_grid grid now s = send_attempts [1, 2] (grid_to_payload grid) now s"

section \<open>One tick of the main loop\<close>

text \<open>
  \<open>val name\<close> is \<open>as01(vr.get(name))\<close> for the tick. The three tables pair each value with
  its label in the order of the source. The assignment of \<open>autopilot\<close> is indented with tabs
  in the source, where its neighbours use spaces; it is read as a statement of the loop body
  like them.
\<close>

definition left_pairs :: "(string \<Rightarrow> int) \<Rightarrow> (int \<times> ustring) list" where
  "left_pairs val =
     [(val ''(L:engine1Fail)'', ustr ''ENG FAIL''),
      (val ''(L:engine1OilPress)'', ustr ''ENG OIL P''),
      (val ''(L:fadecFail1)'', ustr ''FADEC FAIL''),
      (val ''(L:fuelPress1)'', ustr ''FUEL PRESS''),
      (val ''(L:eng1Idle)'', ustr ''ENG IDLE''),
      (val ''(L:train1)'', ustr ''TRAIN''),
      (val ''(L:trainIdle1)'', ustr ''TRAIN IDLE''),
      (val ''(L:eng1Manual)'', ustr ''ENG MANUAL''),
      (val ''(L:twinsgrip1)'', ustr ''TWIST GRIP''),
      (val ''(L:fuelValve1)'', ustr ''FUEL VALVE''),
      (val ''(L:primePump1)'', ustr ''PRIME PUMP''),
      (val ''(L:degraded1)'', ustr ''DEGRADED''),
      (val ''(L:redund1)'', ustr ''REDUND''),
      (val ''(L:hydraulic1)'', ustr ''HYD PRESS''),
      (val ''(L:genDiscon1)'', ustr ''GEN DISCON''),
      (val ''(L:inv1)'', ustr ''INVERTER''),
      (val ''(L:fireTest1Ext)'', ustr ''FIRE EXT''),
      (val ''(L:fireTest1)'', ustr ''FIRE TEST''),
      (val ''(L:bustie1)'', ustr ''BUS TIE''),
      (val ''(L:starter1)'', ustr ''STARTER'')]"

definition right_pairs :: "(string \<Rightarrow> int) \<Rightarrow> (int \<times> ustring) list" where
  "right_pairs val =
     [(val ''(L:engine2Fail)'', ustr ''ENG FAIL''),
      (val ''(L:engine2OilPress)'', ustr ''ENG OIL P''),
      (val ''(L:fadecFail2)'', ustr ''FADEC FAIL''),
      (val ''(L:fuelPress2)'', ustr ''FUEL PRESS''),
      (val ''(L:eng2Idle)'', ustr ''ENG IDLE''),
      (val ''(L:train2)'', ustr ''TRAIN''),
      (val ''(L:trainIdle2)'', ustr ''TRAIN IDLE''),
      (val ''(L:eng2Manual)'', ustr ''ENG MANUAL''),
      (val ''(L:twinsgrip2)'', ustr ''TWIST GRIP''),
      (val ''(L:fuelValve2)'', ustr ''FUEL VALVE''),
      (val ''(L:primePump2)'', ustr ''PRIME PUMP''),
      (val ''(L:degraded2)'', ustr ''DEGRADED''),
      (val ''(L:redund2)'', ustr ''REDUND''),
      (val ''(L:hydraulic2)'', ustr ''HYD PRESS''),
      (val ''(L:genDiscon2)'', ustr ''GEN DISCON''),
      (val ''(L:inve2)'', ustr ''INVERTER''),
      (val ''(L:fireTest2Ext)'', ustr ''FIRE EXT''),
      (val ''(L:fireTest2)'', ustr ''FIRE TEST''),
      (val ''(L:bustie2)'', ustr ''BUS TIE''),
      (val ''(L:starter2)'', ustr ''STARTER'')]"

definition misc_pairs :: "(string \<Rightarrow> int) \<Rightarrow> (int \<times> ustring) list" where
  "misc_pairs val =
     [(val ''(L:xmsnOilTemp)'', ustr ''XMSN OIL T''),
      (val ''(L:autopilot)'', ustr ''AUTOPILOT''),
      (val ''(L:rotorBrake)'', ustr ''ROTOR BRAKE''),
      (val ''(L:fuelPumpAft)'', ustr ''F PUMP AFT''),
      (val ''(L:fuelPumpFwd)'', ustr ''F PUMP FWD''),
      (val ''(L:batDisc)'', ustr ''BAT DISCON''),
      (val ''(L:extPower)'', ustr ''EXT POWER''),
      (val ''(L:shedEmer)'', ustr ''SHED EMER'')]"

definition visible_left :: "(string \<Rightarrow> int) \<Rightarrow> ustring list" where
  "visible_left val = paging (val ''(L:cdsPage)'') (compact_labels (left_pairs val))"

definition visible_right :: "(string \<Rightarrow> int) \<Rightarrow> ustring list" where
  "visible_right val = paging (val ''(L:cdsPage)'') (compact_labels (right_pairs val))"

definition visible_misc :: "(string \<Rightarrow> int) \<Rightarrow> ustring list" where
  "visible_misc val =
     paging (val ''(L:cdsPage)'') [label. (v, label) \<leftarrow> misc_pairs val, v = 1]"

text \<open>Sequencing of steps that may raise.\<close>

definition and_then :: "error + 'a \<Rightarrow> ('a \<Rightarrow> error + 'b) \<Rightarrow> error + 'b" where
  "and_then m f = (case m of Inl e \<Rightarrow> Inl e | Inr x \<Rightarrow> f x)"

definition misc_line :: "ustring list \<Rightarrow> grid \<Rightarrow> nat \<times> int \<Rightarrow> error + grid" where
  "misc_line labels grid p =
     (if fst p < length labels
      then put_text_center grid (labels ! fst p) (snd p) (ustr ''a'') LARGE
      else Inr grid)"

text \<open>The grid that the tick hands to \<open>send_grid\<close>.\<close>

definition render_tick :: "(string \<Rightarrow> int) \<Rightarrow> error + grid" where
  "render_tick val =
     and_then (draw_columns empty_grid (visible_left val) (visible_right val)) (\<lambda>g1.
     and_then (put_text_center g1 (ustr ''MISC'') 6 (ustr ''k'') LARGE) (\<lambda>g2.
     and_then (clear_area_with_spaces g2 7 12 0 CDU_COLUMNS (ustr ''w'') 0) (\<lambda>g3.
     and_then (foldE (misc_line (visible_misc val)) (enumerate 0 [7, 8, 9, 10, 11, 12]) g3) (\<lambda>g4.
     and_then (clear_area_with_spaces g4 13 13 0 12 (ustr ''w'') 0) (\<lambda>g5.
     and_then (clear_area_with_spaces g5 13 13 13 24 (ustr ''w'') 0) (\<lambda>g6.
     and_then (if val ''(L:pitotPilot)'' = 1
               then put_text g6 (ustr ''P/S-HTR-P'') 13 0 (ustr ''g'') LARGE else Inr g6) (\<lambda>g7.
     (if val ''(L:pitotCoPilot)'' = 1
      then put_text g7 (ustr ''P/S-HTR-C'') 13 13 (ustr ''g'') LARGE else Inr g7))))))))"

section \<open>Notions used in the statements\<close>

text \<open>A grid of the fixed dimensions: 14 rows of 24 cells.\<close>

definition wf_grid :: "grid \<Rightarrow> bool" where
  "wf_grid g = (int (length g) = CDU_ROWS \<and> list_all (\<lambda>row. int (length row) = CDU_COLUMNS) g)"

text \<open>The cell that \<open>put_text\<close> writes for a character, and the cell of a cleared area.\<close>

definition written_cell :: "nat \<Rightarrow> ustring \<Rightarrow> int \<Rightarrow> cell" where
  "written_cell ch colour sz = [JString [REPLACED_get ch], JString colour, JNumber sz]"

definition blank_cell :: "ustring \<Rightarrow> int \<Rightarrow> cell" where
  "blank_cell colour sz = [JString (ustr '' ''), JString colour, JNumber sz]"

text \<open>A run of reads, each from the state that the one before left.\<close>

definition reads :: "string list \<Rightarrow> vr_state \<Rightarrow> vr_state" where
  "reads names st = fold (\<lambda>n s. snd (get n s)) names st"

text \<open>The identifiers for which a change subscription on the LVars area was requested.\<close>

fun lvar_requests :: "transport_call list \<Rightarrow> nat list" where
  "lvar_requests [] = []"
| "lvar_requests (RequestClientData a r d # cs) =
     (if a = CLIENT_DATA_AREA_LVARS then r # lvar_requests cs else lvar_requests cs)"
| "lvar_requests (_ # cs) = lvar_requests cs"

text \<open>The library calls that \<open>send_grid\<close> added to the trace.\<close>

definition new_calls :: "McduSocket \<Rightarrow> McduSocket \<Rightarrow> (ws_call \<times> exn option) list" where
  "new_calls s s' = drop (length (trace s)) (trace s')"

definition transport_failures_only :: "exn option list \<Rightarrow> bool" where
  "transport_failures_only os = list_all (\<lambda>out. out \<in> set [None, Some WebSocketException, Some OSError]) os"

text \<open>The transmissions among library calls.\<close>

fun is_Send :: "ws_call \<Rightarrow> bool" where
  "is_Send (Send h p) = True"
| "is_Send _ = False"

definition sends :: "(ws_call \<times> exn option) list \<Rightarrow> (ws_call \<times> exn option) list" where
  "sends cs = filter (\<lambda>c. is_Send (fst c)) cs"

text \<open>
  The library calls of one attempt as the spec's algorithm for the sender describes them, to
  be compared with what \<open>send_grid\<close> does. The attempt starts with the connection \<open>w\<close>
  (\<open>None\<close>: none is held) and \<open>n\<close> names the next connection. It makes sure a connection
  \<open>c\<close> is established (connect and set its timeout if none is held) and transmits the payload
  on it. A transport failure of any of these ends the attempt as failed: the connection, if
  one was opened or held, is closed and none is kept. After a transmission that succeeded, a
  liveness probe follows if one is due; if the probe fails the connection is closed and none
  is kept. \<open>cs\<close> are the calls with their outcomes, \<open>failed\<close> tells whether the attempt
  failed, and \<open>w'\<close> is the connection kept.
\<close>

definition attempt_calls ::
  "json \<Rightarrow> bool \<Rightarrow> nat option \<Rightarrow> nat \<Rightarrow> (ws_call \<times> exn option) list \<Rightarrow> bool \<Rightarrow> nat option \<Rightarrow> bool" where
  "attempt_calls p due w n cs failed w' =
     (let c = (case w of Some h \<Rightarrow> h | None \<Rightarrow> n);
          pre = (case w of Some h \<Rightarrow> [] | None \<Rightarrow> [(Connect c, None), (SetTimeout c, None)])
      in (w = None \<and> failed \<and> w' = None
            \<and> (\<exists>e. (e = WebSocketException \<or> e = OSError) \<and> cs = [(Connect c, Some e)]))
       \<or> (w = None \<and> failed \<and> w' = None
            \<and> (\<exists>e out. (e = WebSocketException \<or> e = OSError)
                   \<and> cs = [(Connect c, None), (SetTimeout c, Some e), (Close c, out)]))
       \<or> (failed \<and> w' = None
            \<and> (\<exists>e out. (e = WebSocketException \<or> e = OSError)
                   \<and> cs = pre @ [(Send c p, Some e), (Close c, out)]))
       \<or> (\<not> failed \<and> \<not> due \<and> w' = Some c \<and> cs = pre @ [(Send c p, None)])
       \<or> (\<not> failed \<and> due \<and> w' = Some c \<and> cs = pre @ [(Send c p, None), (Ping c, None)])
       \<or> (\<not> failed \<and> due \<and> w' = None
            \<and> (\<exists>e out. (e = WebSocketException \<or> e = OSError)
                   \<and> cs = pre @ [(Send c p, None), (Ping c, Some e), (Close c, out)])))"

text \<open>No notification for identifier \<open>i\<close> is among those that the dispatch thread delivers.\<close>

definition no_notification_for :: "nat \<Rightarrow> client_data list list \<Rightarrow> bool" where
  "no_notification_for i env = list_all (list_all (\<lambda>cd. dwDefineID cd \<noteq> i)) env"

section \<open>Compaction and paging\<close>

lemma compact_labels_filter: "compact_labels pairs = map snd (filter (\<lambda>p. fst p = 1) pairs)"
  unfolding compact_labels_def by (induction pairs) auto

text \<open>
  Claim C5. \<open>compact_labels\<close> returns exactly the labels of the pairs whose state is 1, in
  the order of the input: a pair of state 1 contributes its label, a pair of state 0 or 2
  contributes nothing, the result is a subsequence of the input's labels, and
  \<open>[(0,"A"),(1,"B"),(1,"C"),(0,"D")]\<close> yields \<open>["B","C"]\<close>.
\<close>

theorem compact_labels_active_in_order:
  "compact_labels pairs = map snd (filter (\<lambda>p. fst p = 1) pairs)
   \<and> compact_labels ((1, l) # pairs) = l # compact_labels pairs
   \<and> compact_labels ((0, l) # pairs) = compact_labels pairs
   \<and> compact_labels ((2, l) # pairs) = compact_labels pairs
   \<and> compact_labels (pairs @ qs) = compact_labels pairs @ compact_labels qs
   \<and> subseq (compact_labels pairs) (map snd pairs)
   \<and> compact_labels [(0, ''A''), (1, ''B''), (1, ''C''), (0, ''D'')] = [''B'', ''C'']"
proof -
  have "subseq (map snd (filter (\<lambda>p. fst p = 1) pairs)) (map snd pairs)"
    by (induction pairs) auto
  then show ?thesis
    by (simp add: compact_labels_filter)
qed

lemma paging_take_drop:
  "page \<in> {0, 1, 2} \<Longrightarrow> paging page labels = take 6 (drop (nat (page * 6)) labels)"
  unfolding paging_def py_slice_def Let_def
  by (auto simp: min_def max_def)

text \<open>
  Claim C6. For a page in {0,1,2} the paging step returns the labels at the indices
  \<open>[page*6, page*6+6)\<close> that exist: the result is \<open>take 6 (drop (page*6) labels)\<close>, it has at
  most 6 labels, namely \<open>min 6 (length labels - page*6)\<close>, and a 14-label list at page 2
  yields 2 labels. The slice is total: nothing is raised on a short list.
\<close>

theorem paging_window:
  assumes "page \<in> {0, 1, 2}"
  shows "paging page labels = take 6 (drop (nat (page * 6)) labels)
         \<and> length (paging page labels) \<le> 6
         \<and> length (paging page labels) = min 6 (length labels - nat (page * 6))
         \<and> (length labels = 14 \<and> page = 2 \<longrightarrow> length (paging page labels) = 2)"
  using paging_take_drop[OF assms, of labels] by auto

theorem paging_window_witness:
  "paging 2 [1, 2, 3, 4, 5, 6, 7, 8, 9, 10, 11, 12, 13, 14 :: nat] = [13, 14]
   \<and> length (paging 2 [1, 2, 3, 4, 5, 6, 7, 8, 9, 10, 11, 12, 13, 14 :: nat]) = 2"
  using paging_window[of 2 "[1, 2, 3, 4, 5, 6, 7, 8, 9, 10, 11, 12, 13, 14 :: nat]"]
  by simp

section \<open>The grid and its payload\<close>

lemma wf_gridD:
  "wf_grid g \<Longrightarrow> length g = 14"
  "wf_grid g \<Longrightarrow> r < 14 \<Longrightarrow> length (g ! r) = 24"
  by (auto simp: wf_grid_def CDU_ROWS_def CDU_COLUMNS_def list_all_length)

lemma wf_gridI:
  "length g = 14 \<Longrightarrow> (\<And>r. r < 14 \<Longrightarrow> length (g ! r) = 24) \<Longrightarrow> wf_grid g"
  by (auto simp: wf_grid_def CDU_ROWS_def CDU_COLUMNS_def list_all_length)

lemma empty_grid_replicate: "empty_grid = replicate 14 (replicate 24 [])"
  unfolding empty_grid_def py_range_def CDU_ROWS_def CDU_COLUMNS_def
  by (simp add: map_replicate_const)

lemma wf_empty_grid: "wf_grid empty_grid"
  by (rule wf_gridI) (simp_all add: empty_grid_replicate)

lemma concat_nth_uniform:
  "\<forall>row\<in>set g. length row = n \<Longrightarrow> r < length g \<Longrightarrow> c < n \<Longrightarrow>
   concat g ! (r * n + c) = g ! r ! c"
proof (induction g arbitrary: r)
  case Nil
  then show ?case by simp
next
  case (Cons a g)
  show ?case
  proof (cases r)
    case 0
    then show ?thesis using Cons.prems by (simp add: nth_append)
  next
    case (Suc k)
    then show ?thesis using Cons.prems Cons.IH[of k] by (simp add: nth_append)
  qed
qed

lemma length_concat_uniform:
  "\<forall>row\<in>set g. length row = n \<Longrightarrow> length (concat g) = length g * n"
  by (induction g) auto

lemma concat_replicate_replicate: "concat (replicate n (replicate m x)) = replicate (n * m) x"
  by (induction n) (simp_all add: replicate_add)

lemma wf_grid_rows: "wf_grid g \<Longrightarrow> \<forall>row\<in>set g. length row = 24"
  by (auto simp: wf_grid_def CDU_COLUMNS_def list_all_iff)

text \<open>
  Claim C9. For a grid of 14 rows of 24 cells, \<open>grid_to_payload\<close> gives the object with
  \<open>"Target"\<close> equal to \<open>"Display"\<close> and \<open>"Data"\<close> an array of exactly 336 entries, the entry
  at \<open>r * 24 + c\<close> being the cell of row \<open>r\<close> and column \<open>c\<close> (row-major order); for
  \<open>empty_grid\<close> all 336 entries are the empty cell \<open>[]\<close>.
\<close>

theorem grid_to_payload_row_major:
  assumes "wf_grid g"
  shows "\<exists>cells. grid_to_payload g =
            JObject [(ustr ''Target'', JString (ustr ''Display'')), (ustr ''Data'', JArray cells)]
          \<and> length cells = 336
          \<and> (\<forall>r c. r < 14 \<longrightarrow> c < 24 \<longrightarrow> cells ! (r * 24 + c) = JArray (g ! r ! c))
          \<and> (g = empty_grid \<longrightarrow> cells = replicate 336 (JArray []))"
proof -
  let ?cells = "map JArray (concat g)"
  have rows: "\<forall>row\<in>set g. length row = 24" using assms by (rule wf_grid_rows)
  have len: "length (concat g) = 336"
    using length_concat_uniform[OF rows] wf_gridD(1)[OF assms] by simp
  have nth: "?cells ! (r * 24 + c) = JArray (g ! r ! c)" if "r < 14" "c < 24" for r c
  proof -
    have "r * 24 + c < 336" using that by simp
    then show ?thesis
      using concat_nth_uniform[OF rows, of r c] that wf_gridD(1)[OF assms] len by simp
  qed
  have emp: "?cells = replicate 336 (JArray [])" if "g = empty_grid"
    unfolding that empty_grid_replicate concat_replicate_replicate by simp
  show ?thesis
    unfolding grid_to_payload_def using len nth emp by auto
qed

theorem grid_to_payload_row_major_witness:
  "wf_grid empty_grid \<and>
   grid_to_payload empty_grid =
     JObject [(ustr ''Target'', JString (ustr ''Display'')),
              (ustr ''Data'', JArray (replicate 336 (JArray [])))]"
  using grid_to_payload_row_major[OF wf_empty_grid] wf_empty_grid by auto

section \<open>Writing text into the grid\<close>

lemma set_cell_ok:
  assumes "wf_grid g" "0 \<le> r" "r < 14" "0 \<le> c" "c < 24"
  shows "set_cell g r c v = Inr (g[nat r := (g ! nat r)[nat c := v]])"
  using assms wf_gridD[OF assms(1)] wf_gridD(2)[OF assms(1), of "nat r"]
  by (simp add: set_cell_def py_index_def)

lemma wf_grid_update:
  assumes "wf_grid g"
  shows "wf_grid (g[i := (g ! i)[j := v]])"
proof (rule wf_gridI)
  show "length (g[i := (g ! i)[j := v]]) = 14"
    using wf_gridD(1)[OF assms] by simp
  fix r :: nat
  assume "r < 14"
  then show "length (g[i := (g ! i)[j := v]] ! r) = 24"
    using wf_gridD[OF assms] wf_gridD(2)[OF assms, of r] wf_gridD(2)[OF assms, of i]
    by (cases "r = i") simp_all
qed

lemma nth_update2:
  "r < length g \<Longrightarrow> c < length (g ! r) \<Longrightarrow>
   g[i := (g ! i)[j := v]] ! r ! c = (if r = i \<and> c = j then v else g ! r ! c)"
  by (cases "r = i") (auto simp: nth_list_update)

lemma set_cell_cells:
  assumes "wf_grid g" "0 \<le> row" "row < 14" "0 \<le> cc" "cc < 24"
  shows "\<exists>g'. set_cell g row cc v = Inr g' \<and> wf_grid g' \<and>
    (\<forall>r c. r < 14 \<longrightarrow> c < 24 \<longrightarrow>
       g' ! r ! c = (if int r = row \<and> int c = cc then v else g ! r ! c))"
proof -
  have e: "set_cell g row cc v = Inr (g[nat row := (g ! nat row)[nat cc := v]])"
    using set_cell_ok[OF assms] .
  show ?thesis
    unfolding e using assms wf_grid_update[OF assms(1)] wf_gridD[OF assms(1)]
    by (auto simp: nth_update2 wf_gridD(2)[OF assms(1)])
qed

lemma put_char_cases:
  assumes "wf_grid g" "0 \<le> row" "row < 14"
  shows "\<exists>g'. put_char row col colour sz g (i, ch) = Inr g' \<and> wf_grid g' \<and>
    (\<forall>r c. r < 14 \<longrightarrow> c < 24 \<longrightarrow>
       g' ! r ! c = (if int r = row \<and> int c = col + int i then written_cell ch colour sz
                     else g ! r ! c))"
proof (cases "0 \<le> col + int i \<and> col + int i < 24")
  case True
  then have e: "put_char row col colour sz g (i, ch) =
      set_cell g row (col + int i) (written_cell ch colour sz)"
    by (simp add: put_char_def CDU_COLUMNS_def written_cell_def)
  show ?thesis
    unfolding e using set_cell_cells[OF assms, of "col + int i" "written_cell ch colour sz"] True
    by simp
next
  case False
  then have e: "put_char row col colour sz g (i, ch) = Inr g"
    by (auto simp add: put_char_def CDU_COLUMNS_def)
  show ?thesis
    unfolding e using assms False by auto
qed

lemma put_text_loop:
  assumes "0 \<le> row" "row < 14"
  shows "wf_grid g \<Longrightarrow>
    \<exists>g'. foldE (put_char row col colour sz) (enumerate n t) g = Inr g' \<and> wf_grid g' \<and>
    (\<forall>r c. r < 14 \<longrightarrow> c < 24 \<longrightarrow>
       g' ! r ! c =
         (if int r = row \<and> col + int n \<le> int c \<and> int c < col + int n + int (length t)
          then written_cell (t ! nat (int c - col - int n)) colour sz else g ! r ! c))"
proof (induction t arbitrary: n g)
  case Nil
  then show ?case by auto
next
  case (Cons ch t)
  from put_char_cases[OF Cons.prems assms, of col colour sz n ch]
  obtain g1 where g1: "put_char row col colour sz g (n, ch) = Inr g1" "wf_grid g1"
    and c1: "\<And>r c. r < 14 \<Longrightarrow> c < 24 \<Longrightarrow>
       g1 ! r ! c = (if int r = row \<and> int c = col + int n then written_cell ch colour sz
                     else g ! r ! c)"
    by blast
  from Cons.IH[OF g1(2), of "Suc n"]
  obtain g2 where g2: "foldE (put_char row col colour sz) (enumerate (Suc n) t) g1 = Inr g2"
      "wf_grid g2"
    and c2: "\<And>r c. r < 14 \<Longrightarrow> c < 24 \<Longrightarrow>
       g2 ! r ! c =
         (if int r = row \<and> col + int (Suc n) \<le> int c \<and> int c < col + int (Suc n) + int (length t)
          then written_cell (t ! nat (int c - col - int (Suc n))) colour sz else g1 ! r ! c)"
    by blast
  have "foldE (put_char row col colour sz) (enumerate n (ch # t)) g = Inr g2"
    using g1 g2 by simp
  moreover have "\<forall>r c. r < 14 \<longrightarrow> c < 24 \<longrightarrow>
       g2 ! r ! c =
         (if int r = row \<and> col + int n \<le> int c \<and> int c < col + int n + int (length (ch # t))
          then written_cell ((ch # t) ! nat (int c - col - int n)) colour sz else g ! r ! c)"
  proof (intro allI impI)
    fix r c :: nat
    assume rc: "r < 14" "c < 24"
    show "g2 ! r ! c =
         (if int r = row \<and> col + int n \<le> int c \<and> int c < col + int n + int (length (ch # t))
          then written_cell ((ch # t) ! nat (int c - col - int n)) colour sz else g ! r ! c)"
    proof (cases "int c = col + int n")
      case True
      then show ?thesis using c2[OF rc] c1[OF rc] by simp
    next
      case False
      then have "nat (int c - col - int n) = Suc (nat (int c - col - int (Suc n)))"
        if "col + int n \<le> int c"
        using that by simp
      then show ?thesis using c2[OF rc] c1[OF rc] False by auto
    qed
  qed
  ultimately show ?case using g2(2) by blast
qed

lemma put_text_cells:
  assumes "wf_grid g"
  shows "\<exists>g'. put_text g t row col colour sz = Inr g' \<and> wf_grid g' \<and>
    (\<forall>r c. r < 14 \<longrightarrow> c < 24 \<longrightarrow>
       g' ! r ! c =
         (if int r = row \<and> col \<le> int c \<and> int c < col + int (length t)
          then written_cell (t ! nat (int c - col)) colour sz else g ! r ! c))"
proof (cases "0 \<le> row \<and> row < 14")
  case True
  then have e: "put_text g t row col colour sz = foldE (put_char row col colour sz) (enumerate 0 t) g"
    by (simp add: put_text_def CDU_ROWS_def)
  from True have row: "0 \<le> row" "row < 14" by simp_all
  from put_text_loop[OF row assms, of col colour sz 0 t]
  obtain g' where a: "foldE (put_char row col colour sz) (enumerate 0 t) g = Inr g'" "wf_grid g'"
    and c: "\<forall>r c. r < 14 \<longrightarrow> c < 24 \<longrightarrow>
       g' ! r ! c =
         (if int r = row \<and> col + int 0 \<le> int c \<and> int c < col + int 0 + int (length t)
          then written_cell (t ! nat (int c - col - int 0)) colour sz else g ! r ! c)"
    by blast
  from c have "\<forall>r c. r < 14 \<longrightarrow> c < 24 \<longrightarrow>
       g' ! r ! c =
         (if int r = row \<and> col \<le> int c \<and> int c < col + int (length t)
          then written_cell (t ! nat (int c - col)) colour sz else g ! r ! c)"
    by simp
  then show ?thesis
    unfolding e using a by blast
next
  case False
  then have "put_text g t row col colour sz = Inr g"
    by (auto simp: put_text_def CDU_ROWS_def)
  then show ?thesis using assms False by auto
qed

text \<open>
  Claim C7. On a grid of 14 rows of 24 cells \<open>put_text\<close> raises nothing for any text, row
  and column. The grid it leaves has the same dimensions; the cell at row \<open>row\<close> and column
  \<open>col + i\<close> holds the \<open>i\<close>-th character (substituted through \<open>REPLACED\<close>) with the colour and
  size given, for every \<open>i\<close> whose column lies in \<open>[0,24)\<close>; every other cell is unchanged.
  So characters that would fall outside the grid are dropped, a text running past column 23
  is cut there, and a row outside \<open>[0,14)\<close> leaves the whole grid as it was.
\<close>

theorem put_text_never_raises_frame:
  assumes "wf_grid g"
  shows "\<exists>g'. put_text g t row col colour sz = Inr g' \<and> wf_grid g'
          \<and> (\<forall>r c. r < 14 \<longrightarrow> c < 24 \<longrightarrow>
                g' ! r ! c =
                  (if int r = row \<and> col \<le> int c \<and> int c < col + int (length t)
                   then [JString [REPLACED_get (t ! nat (int c - col))], JString colour, JNumber sz]
                   else g ! r ! c))
          \<and> (\<not> (0 \<le> row \<and> row < 14) \<longrightarrow> g' = g)"
proof -
  from put_text_cells[OF assms, of t row col colour sz]
  obtain g' where g': "put_text g t row col colour sz = Inr g'" "wf_grid g'"
    and cells: "\<forall>r c. r < 14 \<longrightarrow> c < 24 \<longrightarrow>
       g' ! r ! c =
         (if int r = row \<and> col \<le> int c \<and> int c < col + int (length t)
          then written_cell (t ! nat (int c - col)) colour sz else g ! r ! c)"
    by blast
  have "g' = g" if "\<not> (0 \<le> row \<and> row < 14)"
    using that g'(1) by (auto simp: put_text_def CDU_ROWS_def)
  then show ?thesis
    using g' cells unfolding written_cell_def by blast
qed

theorem put_text_never_raises_frame_witness:
  "wf_grid empty_grid
   \<and> (\<exists>g'. put_text empty_grid (ustr ''ABCDEFGHIJ'') 0 20 (ustr ''a'') LARGE = Inr g'
         \<and> wf_grid g'
         \<and> g' ! 0 ! 19 = []
         \<and> g' ! 0 ! 20 = [JString (ustr ''A''), JString (ustr ''a''), JNumber 0]
         \<and> g' ! 0 ! 23 = [JString (ustr ''D''), JString (ustr ''a''), JNumber 0]
         \<and> g' ! 1 ! 20 = [])
   \<and> put_text empty_grid (ustr ''ABCDEFGHIJ'') 20 0 (ustr ''a'') LARGE = Inr empty_grid"
proof -
  from put_text_never_raises_frame[OF wf_empty_grid, of "ustr ''ABCDEFGHIJ''" 0 20 "ustr ''a''" LARGE]
  obtain g' where g': "put_text empty_grid (ustr ''ABCDEFGHIJ'') 0 20 (ustr ''a'') LARGE = Inr g'"
      "wf_grid g'"
    and cells: "\<And>r c. r < 14 \<Longrightarrow> c < 24 \<Longrightarrow>
       g' ! r ! c =
         (if int r = 0 \<and> 20 \<le> int c \<and> int c < 20 + int (length (ustr ''ABCDEFGHIJ''))
          then [JString [REPLACED_get (ustr ''ABCDEFGHIJ'' ! nat (int c - 20))], JString (ustr ''a''),
                JNumber LARGE]
          else empty_grid ! r ! c)"
    by blast
  have a: "g' ! 0 ! 19 = []" using cells[of 0 19] by (simp add: empty_grid_replicate)
  have b: "g' ! 0 ! 20 = [JString (ustr ''A''), JString (ustr ''a''), JNumber 0]"
    using cells[of 0 20] by (simp add: ustr_def REPLACED_get_def REPLACED_def LARGE_def)
  have c: "g' ! 0 ! 23 = [JString (ustr ''D''), JString (ustr ''a''), JNumber 0]"
    using cells[of 0 23] by (simp add: ustr_def REPLACED_get_def REPLACED_def LARGE_def)
  have d: "g' ! 1 ! 20 = []" using cells[of 1 20] by (simp add: empty_grid_replicate)
  from put_text_never_raises_frame[OF wf_empty_grid, of "ustr ''ABCDEFGHIJ''" 20 0 "ustr ''a''" LARGE]
  have e: "put_text empty_grid (ustr ''ABCDEFGHIJ'') 20 0 (ustr ''a'') LARGE = Inr empty_grid"
    by auto
  show ?thesis using wf_empty_grid g' a b c d e by blast
qed

section \<open>Clearing an area and drawing the columns\<close>

lemma clear_row_cells:
  assumes "0 \<le> row" "row < 14"
  shows "wf_grid g \<Longrightarrow> \<forall>c\<in>set cs. 0 \<le> c \<and> c < 24 \<Longrightarrow>
    \<exists>g'. foldE (clear_cell colour sz row) cs g = Inr g' \<and> wf_grid g' \<and>
    (\<forall>r c. r < 14 \<longrightarrow> c < 24 \<longrightarrow>
       g' ! r ! c = (if int r = row \<and> int c \<in> set cs then blank_cell colour sz else g ! r ! c))"
proof (induction cs arbitrary: g)
  case Nil
  then show ?case by auto
next
  case (Cons x cs)
  have x: "0 \<le> x" "x < 24" using Cons.prems(2) by auto
  from set_cell_cells[OF Cons.prems(1) assms x, of "blank_cell colour sz"]
  obtain g1 where g1: "clear_cell colour sz row g x = Inr g1" "wf_grid g1"
    and c1: "\<And>r c. r < 14 \<Longrightarrow> c < 24 \<Longrightarrow>
       g1 ! r ! c = (if int r = row \<and> int c = x then blank_cell colour sz else g ! r ! c)"
    unfolding clear_cell_def blank_cell_def by blast
  have rest: "\<forall>c\<in>set cs. 0 \<le> c \<and> c < 24" using Cons.prems(2) by auto
  from Cons.IH[OF g1(2) rest]
  obtain g2 where g2: "foldE (clear_cell colour sz row) cs g1 = Inr g2" "wf_grid g2"
    and c2: "\<And>r c. r < 14 \<Longrightarrow> c < 24 \<Longrightarrow>
       g2 ! r ! c = (if int r = row \<and> int c \<in> set cs then blank_cell colour sz else g1 ! r ! c)"
    by blast
  have "foldE (clear_cell colour sz row) (x # cs) g = Inr g2"
    using g1 g2 by simp
  moreover have "\<forall>r c. r < 14 \<longrightarrow> c < 24 \<longrightarrow>
       g2 ! r ! c = (if int r = row \<and> int c \<in> set (x # cs) then blank_cell colour sz else g ! r ! c)"
    using c1 c2 by auto
  ultimately show ?case using g2(2) by blast
qed

lemma clear_rows_cells:
  assumes cols: "\<forall>c\<in>set cs. 0 \<le> c \<and> c < 24"
  shows "wf_grid g \<Longrightarrow> \<forall>r\<in>set rs. 0 \<le> r \<and> r < 14 \<Longrightarrow>
    \<exists>g'. foldE (\<lambda>g r. foldE (clear_cell colour sz r) cs g) rs g = Inr g' \<and> wf_grid g' \<and>
    (\<forall>r c. r < 14 \<longrightarrow> c < 24 \<longrightarrow>
       g' ! r ! c =
         (if int r \<in> set rs \<and> int c \<in> set cs then blank_cell colour sz else g ! r ! c))"
proof (induction rs arbitrary: g)
  case Nil
  then show ?case by auto
next
  case (Cons x rs)
  have x: "0 \<le> x" "x < 14" using Cons.prems(2) by auto
  from clear_row_cells[OF x Cons.prems(1) cols, of colour sz]
  obtain g1 where g1: "foldE (clear_cell colour sz x) cs g = Inr g1" "wf_grid g1"
    and c1: "\<And>r c. r < 14 \<Longrightarrow> c < 24 \<Longrightarrow>
       g1 ! r ! c = (if int r = x \<and> int c \<in> set cs then blank_cell colour sz else g ! r ! c)"
    by blast
  have rest: "\<forall>r\<in>set rs. 0 \<le> r \<and> r < 14" using Cons.prems(2) by auto
  from Cons.IH[OF g1(2) rest]
  obtain g2 where g2: "foldE (\<lambda>g r. foldE (clear_cell colour sz r) cs g) rs g1 = Inr g2" "wf_grid g2"
    and c2: "\<And>r c. r < 14 \<Longrightarrow> c < 24 \<Longrightarrow>
       g2 ! r ! c =
         (if int r \<in> set rs \<and> int c \<in> set cs then blank_cell colour sz else g1 ! r ! c)"
    by blast
  have "foldE (\<lambda>g r. foldE (clear_cell colour sz r) cs g) (x # rs) g = Inr g2"
    using g1 g2 by simp
  moreover have "\<forall>r c. r < 14 \<longrightarrow> c < 24 \<longrightarrow>
       g2 ! r ! c =
         (if int r \<in> set (x # rs) \<and> int c \<in> set cs then blank_cell colour sz else g ! r ! c)"
    using c1 c2 by auto
  ultimately show ?case using g2(2) by blast
qed

lemma clear_area_cells:
  assumes "wf_grid g" "0 \<le> r0" "r1 < 14" "0 \<le> c0" "c1 \<le> 24"
  shows "\<exists>g'. clear_area_with_spaces g r0 r1 c0 c1 colour sz = Inr g' \<and> wf_grid g' \<and>
    (\<forall>r c. r < 14 \<longrightarrow> c < 24 \<longrightarrow>
       g' ! r ! c =
         (if r0 \<le> int r \<and> int r \<le> r1 \<and> c0 \<le> int c \<and> int c < c1
          then blank_cell colour sz else g ! r ! c))"
proof -
  have cols: "\<forall>c\<in>set (py_range c0 c1). 0 \<le> c \<and> c < 24"
    using assms by (auto simp: py_range_def)
  have rows: "\<forall>r\<in>set (py_range r0 (r1 + 1)). 0 \<le> r \<and> r < 14"
    using assms by (auto simp: py_range_def)
  from clear_rows_cells[OF cols assms(1) rows, of colour sz]
  show ?thesis
    unfolding clear_area_with_spaces_def by (auto simp: py_range_def)
qed

lemma py_slice_take: "py_slice xs 0 (int n) = take n xs"
  by (auto simp: py_slice_def Let_def min_def)

lemma length_field: "length (ljust w (take w s)) = w"
  by (auto simp: ljust_def min_def)

lemma draw_column_cells:
  assumes "0 \<le> c"
  shows "wf_grid g \<Longrightarrow> 0 \<le> row \<Longrightarrow> row \<le> 12 \<Longrightarrow>
    \<exists>g'. draw_column w c g ls row = Inr g' \<and> wf_grid g' \<and>
    (\<forall>r k. r < 14 \<longrightarrow> k < 24 \<longrightarrow>
       g' ! r ! k =
         (if row \<le> int r \<and> int r < row + int (length ls) \<and> int r \<le> 12
             \<and> c \<le> int k \<and> int k < c + int w
          then written_cell (ljust w (take w (ls ! nat (int r - row))) ! nat (int k - c)) (ustr ''a'') 0
          else g ! r ! k))"
proof (induction ls arbitrary: g row)
  case Nil
  then show ?case by auto
next
  case (Cons lbl ls)
  let ?t = "ljust w (take w lbl)"
  from put_text_cells[OF Cons.prems(1), of ?t row c "ustr ''a''" LARGE]
  obtain g1 where g1: "put_text g ?t row c (ustr ''a'') LARGE = Inr g1" "wf_grid g1"
    and c1: "\<And>r k. r < 14 \<Longrightarrow> k < 24 \<Longrightarrow>
       g1 ! r ! k =
         (if int r = row \<and> c \<le> int k \<and> int k < c + int w
          then written_cell (?t ! nat (int k - c)) (ustr ''a'') 0 else g ! r ! k)"
    unfolding length_field LARGE_def by blast
  show ?case
  proof (cases "row + 1 > 12")
    case True
    then have e: "draw_column w c g (lbl # ls) row = Inr g1"
      using g1 by (simp add: py_slice_take CONTENT_LAST_ROW_def CDU_ROWS_def)
    have "\<forall>r k. r < 14 \<longrightarrow> k < 24 \<longrightarrow>
       g1 ! r ! k =
         (if row \<le> int r \<and> int r < row + int (length (lbl # ls)) \<and> int r \<le> 12
             \<and> c \<le> int k \<and> int k < c + int w
          then written_cell (ljust w (take w ((lbl # ls) ! nat (int r - row))) ! nat (int k - c))
                 (ustr ''a'') 0
          else g ! r ! k)"
      using c1 True Cons.prems by auto
    then show ?thesis unfolding e using g1(2) by blast
  next
    case False
    then have row1: "0 \<le> row + 1" "row + 1 \<le> 12" using Cons.prems by auto
    from Cons.IH[OF g1(2) row1]
    obtain g2 where g2: "draw_column w c g1 ls (row + 1) = Inr g2" "wf_grid g2"
      and c2: "\<And>r k. r < 14 \<Longrightarrow> k < 24 \<Longrightarrow>
       g2 ! r ! k =
         (if row + 1 \<le> int r \<and> int r < row + 1 + int (length ls) \<and> int r \<le> 12
             \<and> c \<le> int k \<and> int k < c + int w
          then written_cell (ljust w (take w (ls ! nat (int r - (row + 1)))) ! nat (int k - c))
                 (ustr ''a'') 0
          else g1 ! r ! k)"
      by blast
    have e: "draw_column w c g (lbl # ls) row = Inr g2"
      using g1 g2 False by (simp add: py_slice_take CONTENT_LAST_ROW_def CDU_ROWS_def)
    have "\<forall>r k. r < 14 \<longrightarrow> k < 24 \<longrightarrow>
       g2 ! r ! k =
         (if row \<le> int r \<and> int r < row + int (length (lbl # ls)) \<and> int r \<le> 12
             \<and> c \<le> int k \<and> int k < c + int w
          then written_cell (ljust w (take w ((lbl # ls) ! nat (int r - row))) ! nat (int k - c))
                 (ustr ''a'') 0
          else g ! r ! k)"
    proof (intro allI impI)
      fix r k :: nat
      assume rk: "r < 14" "k < 24"
      show "g2 ! r ! k =
         (if row \<le> int r \<and> int r < row + int (length (lbl # ls)) \<and> int r \<le> 12
             \<and> c \<le> int k \<and> int k < c + int w
          then written_cell (ljust w (take w ((lbl # ls) ! nat (int r - row))) ! nat (int k - c))
                 (ustr ''a'') 0
          else g ! r ! k)"
      proof (cases "int r = row")
        case True
        then show ?thesis using c2[OF rk] c1[OF rk] Cons.prems by simp
      next
        case False
        then have "nat (int r - row) = Suc (nat (int r - (row + 1)))" if "row \<le> int r"
          using that by simp
        then show ?thesis using c2[OF rk] c1[OF rk] False by auto
      qed
    qed
    then show ?thesis unfolding e using g2(2) by blast
  qed
qed

lemma draw_columns_cells:
  assumes "wf_grid g"
  shows "\<exists>g'. draw_columns g left_labels right_labels = Inr g' \<and> wf_grid g' \<and>
    (\<forall>r k. r < 14 \<longrightarrow> k < 24 \<longrightarrow>
       g' ! r ! k =
         (if r = 13 then g ! r ! k
          else if r < length left_labels \<and> k < 12
            then written_cell (ljust 12 (take 12 (left_labels ! r)) ! k) (ustr ''a'') 0
          else if r < length right_labels \<and> 13 \<le> k
            then written_cell (ljust 11 (take 11 (right_labels ! r)) ! (k - 13)) (ustr ''a'') 0
          else blank_cell (ustr ''w'') 0))"
proof -
  from clear_area_cells[OF assms, of 0 12 0 24 "ustr ''w''" 0]
  obtain g0 where g0: "clear_area_with_spaces g 0 12 0 24 (ustr ''w'') 0 = Inr g0" "wf_grid g0"
    and c0: "\<And>r k. r < 14 \<Longrightarrow> k < 24 \<Longrightarrow>
       g0 ! r ! k = (if int r \<le> 12 then blank_cell (ustr ''w'') 0 else g ! r ! k)"
    by auto
  from draw_column_cells[OF _ g0(2), of 0 0 12 "take 13 left_labels"]
  obtain g1 where g1: "draw_column 12 0 g0 (take 13 left_labels) 0 = Inr g1" "wf_grid g1"
    and c1: "\<And>r k. r < 14 \<Longrightarrow> k < 24 \<Longrightarrow>
       g1 ! r ! k =
         (if int r < int (length (take 13 left_labels)) \<and> int r \<le> 12 \<and> int k < 12
          then written_cell (ljust 12 (take 12 (take 13 left_labels ! r)) ! k) (ustr ''a'') 0
          else g0 ! r ! k)"
    by auto
  from draw_column_cells[OF _ g1(2), of 13 0 11 "take 13 right_labels"]
  obtain g2 where g2: "draw_column 11 13 g1 (take 13 right_labels) 0 = Inr g2" "wf_grid g2"
    and c2: "\<And>r k. r < 14 \<Longrightarrow> k < 24 \<Longrightarrow>
       g2 ! r ! k =
         (if int r < int (length (take 13 right_labels)) \<and> int r \<le> 12 \<and> 13 \<le> int k \<and> int k < 24
          then written_cell (ljust 11 (take 11 (take 13 right_labels ! r)) ! nat (int k - 13))
                 (ustr ''a'') 0
          else g1 ! r ! k)"
    by auto
  have m: "MAX_ROWS = int 13" "CONTENT_LAST_ROW = 12" "CONTENT_FIRST_ROW = 0"
    by (simp_all add: MAX_ROWS_def CONTENT_LAST_ROW_def CONTENT_FIRST_ROW_def CDU_ROWS_def)
  have e: "draw_columns g left_labels right_labels = Inr g2"
    unfolding draw_columns_def m py_slice_take LEFT_COL_START_def RIGHT_COL_START_def CDU_COLUMNS_def
    using g0 g1 g2 by simp
  have "g2 ! r ! k =
         (if r = 13 then g ! r ! k
          else if r < length left_labels \<and> k < 12
            then written_cell (ljust 12 (take 12 (left_labels ! r)) ! k) (ustr ''a'') 0
          else if r < length right_labels \<and> 13 \<le> k
            then written_cell (ljust 11 (take 11 (right_labels ! r)) ! (k - 13)) (ustr ''a'') 0
          else blank_cell (ustr ''w'') 0)" if rk: "r < 14" "k < 24" for r k
  proof (cases "r = 13")
    case True
    then show ?thesis using c2[OF rk] c1[OF rk] c0[OF rk] by simp
  next
    case False
    then have r: "r < 13" using rk by simp
    have n: "nat (int k - 13) = k - 13" by simp
    show ?thesis using c2[OF rk] c1[OF rk] c0[OF rk] r rk False unfolding n by auto
  qed
  then show ?thesis unfolding e using g2(2) by blast
qed

section \<open>The grid of a tick\<close>

lemma put_text_center_frame:
  assumes "wf_grid g"
  shows "\<exists>g'. put_text_center g t row colour sz = Inr g' \<and> wf_grid g' \<and>
    (\<forall>r k. r < 14 \<longrightarrow> k < 24 \<longrightarrow> int r \<noteq> row \<longrightarrow> g' ! r ! k = g ! r ! k)"
proof -
  from put_text_cells[OF assms, of "py_slice t 0 CDU_COLUMNS" row
      "(CDU_COLUMNS - int (length (py_slice t 0 CDU_COLUMNS))) div 2" colour sz]
  show ?thesis unfolding put_text_center_def Let_def by auto
qed

lemma misc_lines_frame:
  "wf_grid g \<Longrightarrow>
   \<exists>g'. foldE (misc_line labels) ps g = Inr g' \<and> wf_grid g' \<and>
    (\<forall>r k. r < 14 \<longrightarrow> k < 24 \<longrightarrow> int r \<notin> snd ` set ps \<longrightarrow> g' ! r ! k = g ! r ! k)"
proof (induction ps arbitrary: g)
  case Nil
  then show ?case by auto
next
  case (Cons p ps)
  have "\<exists>g1. misc_line labels g p = Inr g1 \<and> wf_grid g1 \<and>
    (\<forall>r k. r < 14 \<longrightarrow> k < 24 \<longrightarrow> int r \<noteq> snd p \<longrightarrow> g1 ! r ! k = g ! r ! k)"
    using put_text_center_frame[OF Cons.prems, of "labels ! fst p" "snd p" "ustr ''a''" LARGE] Cons.prems
    by (auto simp: misc_line_def)
  then obtain g1 where g1: "misc_line labels g p = Inr g1" "wf_grid g1"
    and c1: "\<And>r k. r < 14 \<Longrightarrow> k < 24 \<Longrightarrow> int r \<noteq> snd p \<Longrightarrow> g1 ! r ! k = g ! r ! k"
    by blast
  from Cons.IH[OF g1(2)]
  obtain g2 where g2: "foldE (misc_line labels) ps g1 = Inr g2" "wf_grid g2"
    and c2: "\<And>r k. r < 14 \<Longrightarrow> k < 24 \<Longrightarrow> int r \<notin> snd ` set ps \<Longrightarrow> g2 ! r ! k = g1 ! r ! k"
    by blast
  have "foldE (misc_line labels) (p # ps) g = Inr g2" using g1 g2 by simp
  moreover have "\<forall>r k. r < 14 \<longrightarrow> k < 24 \<longrightarrow> int r \<notin> snd ` set (p # ps) \<longrightarrow> g2 ! r ! k = g ! r ! k"
    using c1 c2 by auto
  ultimately show ?case using g2(2) by blast
qed

lemma pitot_frame:
  assumes "wf_grid g"
  shows "\<exists>g'. (if b then put_text g t 13 col colour sz else Inr g) = Inr g' \<and> wf_grid g' \<and>
    (\<forall>r k. r < 7 \<longrightarrow> k < 24 \<longrightarrow> g' ! r ! k = g ! r ! k)"
  using put_text_cells[OF assms, of t 13 col colour sz] assms by (cases b) auto

text \<open>
  The steps of a tick after \<open>draw_columns\<close> and the title: they leave rows 0 to 6 alone.
\<close>

lemma tick_tail_frame:
  assumes "wf_grid g2"
  shows "\<exists>gf.
     and_then (clear_area_with_spaces g2 7 12 0 CDU_COLUMNS (ustr ''w'') 0) (\<lambda>g3.
     and_then (foldE (misc_line labels) (enumerate 0 [7, 8, 9, 10, 11, 12]) g3) (\<lambda>g4.
     and_then (clear_area_with_spaces g4 13 13 0 12 (ustr ''w'') 0) (\<lambda>g5.
     and_then (clear_area_with_spaces g5 13 13 13 24 (ustr ''w'') 0) (\<lambda>g6.
     and_then (if p1 then put_text g6 t1 13 0 (ustr ''g'') LARGE else Inr g6) (\<lambda>g7.
     (if p2 then put_text g7 t2 13 13 (ustr ''g'') LARGE else Inr g7)))))) = Inr gf
     \<and> wf_grid gf \<and> (\<forall>r k. r < 7 \<longrightarrow> k < 24 \<longrightarrow> gf ! r ! k = g2 ! r ! k)"
proof -
  from clear_area_cells[OF assms, of 7 12 0 24 "ustr ''w''" 0]
  obtain g3 where g3: "clear_area_with_spaces g2 7 12 0 24 (ustr ''w'') 0 = Inr g3" "wf_grid g3"
    and c3: "\<And>r k. r < 7 \<Longrightarrow> k < 24 \<Longrightarrow> g3 ! r ! k = g2 ! r ! k"
    by auto
  from misc_lines_frame[OF g3(2), of labels "enumerate 0 [7, 8, 9, 10, 11, 12]"]
  obtain g4 where g4: "foldE (misc_line labels) (enumerate 0 [7, 8, 9, 10, 11, 12]) g3 = Inr g4"
      "wf_grid g4"
    and c4: "\<And>r k. r < 7 \<Longrightarrow> k < 24 \<Longrightarrow> g4 ! r ! k = g3 ! r ! k"
    by auto
  from clear_area_cells[OF g4(2), of 13 13 0 12 "ustr ''w''" 0]
  obtain g5 where g5: "clear_area_with_spaces g4 13 13 0 12 (ustr ''w'') 0 = Inr g5" "wf_grid g5"
    and c5: "\<And>r k. r < 7 \<Longrightarrow> k < 24 \<Longrightarrow> g5 ! r ! k = g4 ! r ! k"
    by auto
  from clear_area_cells[OF g5(2), of 13 13 13 24 "ustr ''w''" 0]
  obtain g6 where g6: "clear_area_with_spaces g5 13 13 13 24 (ustr ''w'') 0 = Inr g6" "wf_grid g6"
    and c6: "\<And>r k. r < 7 \<Longrightarrow> k < 24 \<Longrightarrow> g6 ! r ! k = g5 ! r ! k"
    by auto
  from pitot_frame[OF g6(2), of p1 t1 0 "ustr ''g''" LARGE]
  obtain g7 where g7: "(if p1 then put_text g6 t1 13 0 (ustr ''g'') LARGE else Inr g6) = Inr g7"
      "wf_grid g7"
    and c7: "\<And>r k. r < 7 \<Longrightarrow> k < 24 \<Longrightarrow> g7 ! r ! k = g6 ! r ! k"
    by blast
  from pitot_frame[OF g7(2), of p2 t2 13 "ustr ''g''" LARGE]
  obtain g8 where g8: "(if p2 then put_text g7 t2 13 13 (ustr ''g'') LARGE else Inr g7) = Inr g8"
      "wf_grid g8"
    and c8: "\<And>r k. r < 7 \<Longrightarrow> k < 24 \<Longrightarrow> g8 ! r ! k = g7 ! r ! k"
    by blast
  have "\<forall>r k. r < 7 \<longrightarrow> k < 24 \<longrightarrow> g8 ! r ! k = g2 ! r ! k"
    using c3 c4 c5 c6 c7 c8 by simp
  then show ?thesis
    using g3 g4 g5 g6 g7 g8 by (simp add: and_then_def CDU_COLUMNS_def)
qed

lemma title_cells:
  assumes "wf_grid g1"
  shows "\<exists>g2. put_text_center g1 (ustr ''MISC'') 6 (ustr ''k'') LARGE = Inr g2 \<and> wf_grid g2 \<and>
    (\<forall>r k. r < 14 \<longrightarrow> k < 24 \<longrightarrow>
       g2 ! r ! k = (if r = 6 \<and> 10 \<le> k \<and> k < 14
                     then written_cell (ustr ''MISC'' ! (k - 10)) (ustr ''k'') 0 else g1 ! r ! k))"
proof -
  have t: "py_slice (ustr ''MISC'') 0 24 = ustr ''MISC''"
    by (simp add: py_slice_def ustr_def)
  have l: "length (ustr ''MISC'') = 4" by (simp add: ustr_def)
  have e: "put_text_center g1 (ustr ''MISC'') 6 (ustr ''k'') LARGE =
           put_text g1 (ustr ''MISC'') 6 10 (ustr ''k'') 0"
    by (simp add: put_text_center_def Let_def CDU_COLUMNS_def t l LARGE_def)
  from put_text_cells[OF assms, of "ustr ''MISC''" 6 10 "ustr ''k''" 0]
  obtain g2 where g2: "put_text g1 (ustr ''MISC'') 6 10 (ustr ''k'') 0 = Inr g2" "wf_grid g2"
    and c: "\<And>r k. r < 14 \<Longrightarrow> k < 24 \<Longrightarrow>
       g2 ! r ! k =
         (if int r = 6 \<and> 10 \<le> int k \<and> int k < 10 + int (length (ustr ''MISC''))
          then written_cell (ustr ''MISC'' ! nat (int k - 10)) (ustr ''k'') 0 else g1 ! r ! k)"
    by blast
  have "g2 ! r ! k = (if r = 6 \<and> 10 \<le> k \<and> k < 14
                     then written_cell (ustr ''MISC'' ! (k - 10)) (ustr ''k'') 0 else g1 ! r ! k)"
    if "r < 14" "k < 24" for r k
  proof -
    have n: "nat (int k - 10) = k - 10" by simp
    show ?thesis using c[OF that] unfolding l n by auto
  qed
  then show ?thesis unfolding e using g2 by blast
qed

lemma render_tick_rows:
  "\<exists>g1 gf. draw_columns empty_grid (visible_left val) (visible_right val) = Inr g1
     \<and> render_tick val = Inr gf \<and> wf_grid gf
     \<and> (\<forall>r k. r < 7 \<longrightarrow> k < 24 \<longrightarrow>
           gf ! r ! k = (if r = 6 \<and> 10 \<le> k \<and> k < 14
                         then written_cell (ustr ''MISC'' ! (k - 10)) (ustr ''k'') 0
                         else g1 ! r ! k))"
proof -
  from draw_columns_cells[OF wf_empty_grid, of "visible_left val" "visible_right val"]
  obtain g1 where g1: "draw_columns empty_grid (visible_left val) (visible_right val) = Inr g1"
      "wf_grid g1"
    by blast
  from title_cells[OF g1(2)]
  obtain g2 where g2: "put_text_center g1 (ustr ''MISC'') 6 (ustr ''k'') LARGE = Inr g2" "wf_grid g2"
    and c2: "\<And>r k. r < 14 \<Longrightarrow> k < 24 \<Longrightarrow>
       g2 ! r ! k = (if r = 6 \<and> 10 \<le> k \<and> k < 14
                     then written_cell (ustr ''MISC'' ! (k - 10)) (ustr ''k'') 0 else g1 ! r ! k)"
    by blast
  from tick_tail_frame[OF g2(2), of "visible_misc val" "val ''(L:pitotPilot)'' = 1"
      "ustr ''P/S-HTR-P''" "val ''(L:pitotCoPilot)'' = 1" "ustr ''P/S-HTR-C''"]
  obtain gf where gf: "render_tick val = Inr gf" "wf_grid gf"
    and cf: "\<And>r k. r < 7 \<Longrightarrow> k < 24 \<Longrightarrow> gf ! r ! k = g2 ! r ! k"
    unfolding render_tick_def using g1 g2 by (auto simp: and_then_def)
  have "\<forall>r k. r < 7 \<longrightarrow> k < 24 \<longrightarrow>
           gf ! r ! k = (if r = 6 \<and> 10 \<le> k \<and> k < 14
                         then written_cell (ustr ''MISC'' ! (k - 10)) (ustr ''k'') 0
                         else g1 ! r ! k)"
    using cf c2 by simp
  then show ?thesis using g1 gf by blast
qed

lemma eng_fail_field: "ljust 12 (take 12 (ustr ''ENG FAIL'')) = ustr ''ENG FAIL    ''"
  by (simp add: ljust_def ustr_def numeral_eq_Suc)

lemma eng_fail_glyphs: "\<forall>ch\<in>set (ustr ''ENG FAIL    ''). REPLACED_get ch = ch"
  by (simp add: ustr_def REPLACED_get_def REPLACED_def)

text \<open>
  The title of the miscellaneous block is centred in row 6, at columns 10 to 13: in the grid
  that a tick sends, columns 10 and 11 of row 6 hold its first two letters, whatever the
  values read.
\<close>

lemma render_tick_title_row:
  "\<exists>gf. render_tick val = Inr gf
     \<and> gf ! 6 ! 10 = [JString (ustr ''M''), JString (ustr ''k''), JNumber 0]
     \<and> gf ! 6 ! 11 = [JString (ustr ''I''), JString (ustr ''k''), JNumber 0]"
proof -
  from render_tick_rows[of val]
  obtain g1 gf where gf: "render_tick val = Inr gf"
    and c: "\<And>r k. r < 7 \<Longrightarrow> k < 24 \<Longrightarrow>
           gf ! r ! k = (if r = 6 \<and> 10 \<le> k \<and> k < 14
                         then written_cell (ustr ''MISC'' ! (k - 10)) (ustr ''k'') 0
                         else g1 ! r ! k)"
    by blast
  have "gf ! 6 ! 10 = [JString (ustr ''M''), JString (ustr ''k''), JNumber 0]"
    using c[of 6 10] by (simp add: written_cell_def ustr_def REPLACED_get_def REPLACED_def)
  moreover have "gf ! 6 ! 11 = [JString (ustr ''I''), JString (ustr ''k''), JNumber 0]"
    using c[of 6 11] by (simp add: written_cell_def ustr_def REPLACED_get_def REPLACED_def)
  ultimately show ?thesis using gf by blast
qed

text \<open>
  Claim C8. In a tick with page 0 in which \<open>engine1Fail\<close> is the only left-column value equal
  to 1 (the others may be 0 or 2), \<open>draw_columns\<close> on the fresh grid returns a grid of the fixed dimensions in which
  row 0 holds \<open>ENG FAIL\<close> in columns 0 to 7 and spaces in columns 8 to 11, all twelve with
  colour \<open>a\<close> and size LARGE (the 12-character field); column 12 of row 0 and columns 0 to 12
  of rows 1 to 12 hold the blank cell of the cleared region (space, colour \<open>w\<close>, size 0); in
  columns 13 to 23 row \<open>r\<close> holds the \<open>r\<close>-th visible right label in an 11-character field,
  or blanks of the cleared region when there is none. The grid that the tick sends agrees
  with this one on rows 0 to 5.
\<close>

theorem draw_columns_engine_fail_only:
  assumes page: "val ''(L:cdsPage)'' = 0"
    and left: "map (\<lambda>p. fst p = 1) (left_pairs val) =
      [True, False, False, False, False, False, False, False, False, False,
       False, False, False, False, False, False, False, False, False, False]"
  shows "\<exists>g. draw_columns empty_grid (visible_left val) (visible_right val) = Inr g \<and> wf_grid g
     \<and> (\<forall>k. k < 12 \<longrightarrow>
           g ! 0 ! k = [JString [ustr ''ENG FAIL    '' ! k], JString (ustr ''a''), JNumber LARGE])
     \<and> g ! 0 ! 12 = [JString (ustr '' ''), JString (ustr ''w''), JNumber 0]
     \<and> (\<forall>r k. 1 \<le> r \<and> r \<le> 12 \<and> k \<le> 12 \<longrightarrow>
           g ! r ! k = [JString (ustr '' ''), JString (ustr ''w''), JNumber 0])
     \<and> (\<forall>r k. r \<le> 12 \<and> 13 \<le> k \<and> k < 24 \<longrightarrow>
           g ! r ! k =
             (if r < length (visible_right val)
              then [JString [REPLACED_get (ljust 11 (take 11 (visible_right val ! r)) ! (k - 13))],
                    JString (ustr ''a''), JNumber LARGE]
              else [JString (ustr '' ''), JString (ustr ''w''), JNumber 0]))
     \<and> (\<exists>gf. render_tick val = Inr gf
           \<and> (\<forall>r k. r < 6 \<and> k < 24 \<longrightarrow> gf ! r ! k = g ! r ! k))"
proof -
  have cl: "compact_labels (left_pairs val) = [ustr ''ENG FAIL'']"
    using left by (simp add: left_pairs_def compact_labels_def)
  have vl: "visible_left val = [ustr ''ENG FAIL'']"
    unfolding visible_left_def page cl using paging_take_drop[of 0 "[ustr ''ENG FAIL'']"] by simp
  from render_tick_rows[of val]
  obtain g gf where g: "draw_columns empty_grid (visible_left val) (visible_right val) = Inr g"
    and gf: "render_tick val = Inr gf"
    and cf: "\<And>r k. r < 7 \<Longrightarrow> k < 24 \<Longrightarrow>
           gf ! r ! k = (if r = 6 \<and> 10 \<le> k \<and> k < 14
                         then written_cell (ustr ''MISC'' ! (k - 10)) (ustr ''k'') 0
                         else g ! r ! k)"
    by blast
  from draw_columns_cells[OF wf_empty_grid, of "visible_left val" "visible_right val"] g
  have wf: "wf_grid g"
    and c: "\<And>r k. r < 14 \<Longrightarrow> k < 24 \<Longrightarrow>
       g ! r ! k =
         (if r = 13 then empty_grid ! r ! k
          else if r < length (visible_left val) \<and> k < 12
            then written_cell (ljust 12 (take 12 (visible_left val ! r)) ! k) (ustr ''a'') 0
          else if r < length (visible_right val) \<and> 13 \<le> k
            then written_cell (ljust 11 (take 11 (visible_right val ! r)) ! (k - 13)) (ustr ''a'') 0
          else blank_cell (ustr ''w'') 0)"
    by auto
  have row0: "g ! 0 ! k = [JString [ustr ''ENG FAIL    '' ! k], JString (ustr ''a''), JNumber LARGE]"
    if "k < 12" for k
  proof -
    have "ustr ''ENG FAIL    '' ! k \<in> set (ustr ''ENG FAIL    '')"
      using that by (intro nth_mem) (simp add: ustr_def)
    then have "REPLACED_get (ustr ''ENG FAIL    '' ! k) = ustr ''ENG FAIL    '' ! k"
      using eng_fail_glyphs by blast
    then show ?thesis
      using c[of 0 k] that by (simp add: vl eng_fail_field written_cell_def LARGE_def)
  qed
  have col12: "g ! 0 ! 12 = [JString (ustr '' ''), JString (ustr ''w''), JNumber 0]"
    using c[of 0 12] by (simp add: vl blank_cell_def)
  have rest: "g ! r ! k = [JString (ustr '' ''), JString (ustr ''w''), JNumber 0]"
    if "1 \<le> r \<and> r \<le> 12 \<and> k \<le> 12" for r k
    using c[of r k] that by (simp add: vl blank_cell_def)
  have right: "g ! r ! k =
             (if r < length (visible_right val)
              then [JString [REPLACED_get (ljust 11 (take 11 (visible_right val ! r)) ! (k - 13))],
                    JString (ustr ''a''), JNumber LARGE]
              else [JString (ustr '' ''), JString (ustr ''w''), JNumber 0])"
    if "r \<le> 12 \<and> 13 \<le> k \<and> k < 24" for r k
    using c[of r k] that by (simp add: vl blank_cell_def written_cell_def LARGE_def)
  have final: "gf ! r ! k = g ! r ! k" if "r < 6 \<and> k < 24" for r k
    using cf[of r k] that by simp
  show ?thesis
    using g wf row0 col12 rest right gf final by blast
qed

theorem draw_columns_engine_fail_only_witness:
  "\<exists>g. draw_columns empty_grid
          (visible_left (\<lambda>n. if n = ''(L:engine1Fail)'' then 1 else if n = ''(L:train1)'' then 2 else 0))
          (visible_right (\<lambda>n. if n = ''(L:engine1Fail)'' then 1 else if n = ''(L:train1)'' then 2 else 0)) = Inr g
     \<and> g ! 0 ! 0 = [JString (ustr ''E''), JString (ustr ''a''), JNumber 0]
     \<and> g ! 0 ! 7 = [JString (ustr ''L''), JString (ustr ''a''), JNumber 0]
     \<and> g ! 0 ! 8 = [JString (ustr '' ''), JString (ustr ''a''), JNumber 0]
     \<and> g ! 0 ! 12 = [JString (ustr '' ''), JString (ustr ''w''), JNumber 0]
     \<and> g ! 1 ! 0 = [JString (ustr '' ''), JString (ustr ''w''), JNumber 0]
     \<and> (\<exists>gf. render_tick (\<lambda>n. if n = ''(L:engine1Fail)'' then 1 else if n = ''(L:train1)'' then 2 else 0) = Inr gf
            \<and> gf ! 0 ! 0 = g ! 0 ! 0)"
proof -
  let ?val = "\<lambda>n. if n = ''(L:engine1Fail)'' then 1 else if n = ''(L:train1)'' then 2 else (0::int)"
  have page: "?val ''(L:cdsPage)'' = 0" by simp
  have left: "map (\<lambda>p. fst p = 1) (left_pairs ?val) =
      [True, False, False, False, False, False, False, False, False, False,
       False, False, False, False, False, False, False, False, False, False]"
    by (simp add: left_pairs_def)
  from draw_columns_engine_fail_only[of ?val, OF page left]
  obtain g gf where g: "draw_columns empty_grid (visible_left ?val) (visible_right ?val) = Inr g"
    and r0: "\<And>k. k < 12 \<Longrightarrow>
           g ! 0 ! k = [JString [ustr ''ENG FAIL    '' ! k], JString (ustr ''a''), JNumber LARGE]"
    and c12: "g ! 0 ! 12 = [JString (ustr '' ''), JString (ustr ''w''), JNumber 0]"
    and rest: "\<And>r k. 1 \<le> r \<and> r \<le> 12 \<and> k \<le> 12 \<Longrightarrow>
           g ! r ! k = [JString (ustr '' ''), JString (ustr ''w''), JNumber 0]"
    and gf: "render_tick ?val = Inr gf"
    and fin: "\<And>r k. r < 6 \<and> k < 24 \<Longrightarrow> gf ! r ! k = g ! r ! k"
    by blast
  have a: "g ! 0 ! 0 = [JString (ustr ''E''), JString (ustr ''a''), JNumber 0]"
    using r0[of 0] by (simp add: ustr_def LARGE_def)
  have b: "g ! 0 ! 7 = [JString (ustr ''L''), JString (ustr ''a''), JNumber 0]"
    using r0[of 7] by (simp add: ustr_def LARGE_def)
  have c: "g ! 0 ! 8 = [JString (ustr '' ''), JString (ustr ''a''), JNumber 0]"
    using r0[of 8] by (simp add: ustr_def LARGE_def)
  have d: "g ! 1 ! 0 = [JString (ustr '' ''), JString (ustr ''w''), JNumber 0]"
    using rest[of 1 0] by simp
  have e: "gf ! 0 ! 0 = g ! 0 ! 0" using fin[of 0 0] by simp
  show ?thesis using g a b c c12 d gf e by blast
qed

section \<open>Conversion of an int to a float\<close>














section \<open>Value normalization\<close>







section \<open>The variable access layer\<close>

lemma call_fields [simp]:
  "sim_vars (call c st) = sim_vars st"
  "sim_var_name_to_id (call c st) = sim_var_name_to_id st"
  "calls (call c st) = calls st @ [c]"
  "incoming (call c st) = incoming st"
  "sleeps (call c st) = sleeps st"
  by (simp_all add: call_def)

lemma lvar_requests_append: "lvar_requests (xs @ ys) = lvar_requests xs @ lvar_requests ys"
  by (induction xs rule: lvar_requests.induct) auto

lemma send_command_fields:
  "sim_vars (snd (send_command c st)) = sim_vars st"
  "sim_var_name_to_id (snd (send_command c st)) = sim_var_name_to_id st"
  "incoming (snd (send_command c st)) = incoming st"
  "sleeps (snd (send_command c st)) = sleeps st"
  "lvar_requests (calls (snd (send_command c st))) = lvar_requests (calls st)"
  by (simp_all add: send_command_def send_data_def lvar_requests_append)

lemma handler_fields [simp]:
  "sim_var_name_to_id (client_data_callback_handler cd st) = sim_var_name_to_id st"
  "calls (client_data_callback_handler cd st) = calls st"
  "incoming (client_data_callback_handler cd st) = incoming st"
  "sleeps (client_data_callback_handler cd st) = sleeps st"
  by (simp_all add: client_data_callback_handler_def split: option.splits)

lemma update_keys_present:
  "map_of al k = Some v \<Longrightarrow> map fst (AList.update k v' al) = map fst al"
  by (induction al) (auto split: if_splits)

lemma update_absent:
  "map_of al k = None \<Longrightarrow> AList.update k v al = al @ [(k, v)]"
  by (induction al) (auto split: if_splits)

lemma handler_keys [simp]:
  "map fst (sim_vars (client_data_callback_handler cd st)) = map fst (sim_vars st)"
  by (simp add: client_data_callback_handler_def update_keys_present split: option.splits)

lemma handler_other:
  "dwDefineID cd \<noteq> i \<Longrightarrow>
   map_of (sim_vars (client_data_callback_handler cd st)) i = map_of (sim_vars st) i"
  by (simp add: client_data_callback_handler_def update_conv' split: option.splits)

lemma handlers_fields [simp]:
  "sim_var_name_to_id (fold client_data_callback_handler b st) = sim_var_name_to_id st"
  "calls (fold client_data_callback_handler b st) = calls st"
  "incoming (fold client_data_callback_handler b st) = incoming st"
  "sleeps (fold client_data_callback_handler b st) = sleeps st"
  "map fst (sim_vars (fold client_data_callback_handler b st)) = map fst (sim_vars st)"
  by (induction b arbitrary: st) simp_all

lemma handlers_other:
  "list_all (\<lambda>cd. dwDefineID cd \<noteq> i) b \<Longrightarrow>
   map_of (sim_vars (fold client_data_callback_handler b st)) i = map_of (sim_vars st) i"
  by (induction b arbitrary: st) (simp_all add: handler_other)

lemma sleep_fields [simp]:
  "sim_var_name_to_id (sleep10ms st) = sim_var_name_to_id st"
  "calls (sleep10ms st) = calls st"
  "sleeps (sleep10ms st) = sleeps st + 1"
  "map fst (sim_vars (sleep10ms st)) = map fst (sim_vars st)"
  by (simp_all add: sleep10ms_def split: list.splits)

lemma sleep_quiet:
  "no_notification_for i (incoming st) \<Longrightarrow>
   map_of (sim_vars (sleep10ms st)) i = map_of (sim_vars st) i
   \<and> no_notification_for i (incoming (sleep10ms st))"
  by (auto simp: sleep10ms_def no_notification_for_def handlers_other split: list.splits)

lemma wait_loop_fields:
  "sim_var_name_to_id (snd (wait_loop i k st)) = sim_var_name_to_id st
   \<and> calls (snd (wait_loop i k st)) = calls st
   \<and> map fst (sim_vars (snd (wait_loop i k st))) = map fst (sim_vars st)"
proof (induction i k st rule: wait_loop.induct)
  case (1 i k st)
  show ?case
  proof (cases "k < 50")
    case False
    then show ?thesis by (simp add: wait_loop.simps[of i k st])
  next
    case True
    show ?thesis
    proof (cases "map_of (sim_vars st) i")
      case None
      then show ?thesis using True by (simp add: wait_loop.simps[of i k st])
    next
      case (Some sv)
      show ?thesis
      proof (cases "float_value sv = None")
        case F: False
        then obtain y where "float_value sv = Some y" by auto
        then show ?thesis using True Some by (simp add: wait_loop.simps[of i k st])
      next
        case T: True
        have "wait_loop i k st = wait_loop i (k + 1) (sleep10ms st)"
          using True Some T by (simp add: wait_loop.simps[of i k st])
        then show ?thesis using "1.IH"[OF True Some T] by simp
      qed
    qed
  qed
qed

text \<open>With no notification for the identifier the loop sleeps until the counter is 50.\<close>

lemma wait_loop_quiet:
  "map_of (sim_vars st) i = Some sv \<Longrightarrow> float_value sv = None \<Longrightarrow>
   no_notification_for i (incoming st) \<Longrightarrow> k \<le> 50 \<Longrightarrow>
   fst (wait_loop i k st) = 50
   \<and> sleeps (snd (wait_loop i k st)) = sleeps st + (50 - k)
   \<and> map_of (sim_vars (snd (wait_loop i k st))) i = Some sv"
proof (induction i k st rule: wait_loop.induct)
  case (1 i k st)
  show ?case
  proof (cases "k < 50")
    case False
    then have e: "wait_loop i k st = (k, st)" by (simp add: wait_loop.simps[of i k st])
    have "k = 50" using False "1.prems" by simp
    then show ?thesis unfolding e using "1.prems" by simp
  next
    case True
    have e: "wait_loop i k st = wait_loop i (k + 1) (sleep10ms st)"
      using True "1.prems" by (simp add: wait_loop.simps[of i k st])
    from sleep_quiet[OF "1.prems"(3)] "1.prems"(1)
    have s: "map_of (sim_vars (sleep10ms st)) i = Some sv"
      "no_notification_for i (incoming (sleep10ms st))"
      by simp_all
    have k: "k + 1 \<le> 50" using True by simp
    from "1.IH"[OF True "1.prems"(1) "1.prems"(2) s(1) "1.prems"(2) s(2) k]
    show ?thesis unfolding e using True by simp
  qed
qed

lemma get_pending_quiet:
  assumes "map_of (sim_var_name_to_id st) name = Some i"
    and "map_of (sim_vars st) i = Some sv"
    and "float_value sv = None"
    and "\<not> initialized sv"
    and "no_notification_for i (incoming st)"
  shows "fst (get name st) = Inr None
         \<and> sleeps (snd (get name st)) = sleeps st + 50
         \<and> map_of (sim_vars (snd (get name st))) i = Some sv"
proof -
  obtain c st2 where wl: "wait_loop i 0 st = (c, st2)" by (cases "wait_loop i 0 st")
  from wait_loop_quiet[OF assms(2) assms(3) assms(5), of 0]
  have w: "sleeps st2 = sleeps st + 50" "map_of (sim_vars st2) i = Some sv"
    unfolding wl by simp_all
  have "get name st = (Inr None, st2)"
    using assms(1-4) w(2) by (simp add: get_def wl)
  then show ?thesis using w by simp
qed

text \<open>
  Claim C1, as amended. For a variable whose subscription is pending (the name has its
  identifier, the variable has no value and is not initialized) and for which no
  notification arrives, \<open>get\<close> sleeps 10 ms exactly 50 times and then returns None; the
  variable is left as it was, without a value and not initialized.
\<close>

theorem get_pending_times_out_with_none:
  assumes "map_of (sim_var_name_to_id st) name = Some i"
    and "map_of (sim_vars st) i = Some sv"
    and "float_value sv = None"
    and "\<not> initialized sv"
    and "no_notification_for i (incoming st)"
  shows "fst (get name st) = Inr None
         \<and> sleeps (snd (get name st)) = sleeps st + 50
         \<and> (\<exists>sv'. map_of (sim_vars (snd (get name st))) i = Some sv'
                \<and> float_value sv' = None \<and> \<not> initialized sv')"
  using get_pending_quiet[OF assms] assms(3,4) by simp

theorem get_pending_times_out_with_none_witness:
  "fst (get ''(L:cdsPage)''
     \<lparr>sim_vars = [(1, \<lparr>var_id = 1, var_name = ''(L:cdsPage)'', float_value = None,
                       initialized = False\<rparr>)],
      sim_var_name_to_id = [(''(L:cdsPage)'', 1)], calls = [],
      incoming = [[\<lparr>dwDefineID = 2, dwData_float = Finite 1\<rparr>]], sleeps = 0\<rparr>) = Inr None
   \<and> sleeps (snd (get ''(L:cdsPage)''
     \<lparr>sim_vars = [(1, \<lparr>var_id = 1, var_name = ''(L:cdsPage)'', float_value = None,
                       initialized = False\<rparr>)],
      sim_var_name_to_id = [(''(L:cdsPage)'', 1)], calls = [],
      incoming = [[\<lparr>dwDefineID = 2, dwData_float = Finite 1\<rparr>]], sleeps = 0\<rparr>)) = 50"
  using get_pending_times_out_with_none[of
      "\<lparr>sim_vars = [(1, \<lparr>var_id = 1, var_name = ''(L:cdsPage)'', float_value = None,
                       initialized = False\<rparr>)],
        sim_var_name_to_id = [(''(L:cdsPage)'', 1)], calls = [],
        incoming = [[\<lparr>dwDefineID = 2, dwData_float = Finite 1\<rparr>]], sleeps = 0\<rparr>"
      "''(L:cdsPage)''" 1
      "\<lparr>var_id = 1, var_name = ''(L:cdsPage)'', float_value = None, initialized = False\<rparr>"]
  by (simp add: no_notification_for_def)

text \<open>
  The claim as first stated fails: for a pending variable that never receives a
  notification \<open>get\<close> returns None, not 0.0, and the variable is not marked initialized.
\<close>

theorem get_timeout_counterexample:
  "fst (get ''(L:cdsPage)''
     \<lparr>sim_vars = [(1, \<lparr>var_id = 1, var_name = ''(L:cdsPage)'', float_value = None,
                       initialized = False\<rparr>)],
      sim_var_name_to_id = [(''(L:cdsPage)'', 1)], calls = [],
      incoming = [], sleeps = 0\<rparr>) = Inr None
   \<and> map (\<lambda>p. initialized (snd p)) (sim_vars (snd (get ''(L:cdsPage)''
     \<lparr>sim_vars = [(1, \<lparr>var_id = 1, var_name = ''(L:cdsPage)'', float_value = None,
                       initialized = False\<rparr>)],
      sim_var_name_to_id = [(''(L:cdsPage)'', 1)], calls = [],
      incoming = [], sleeps = 0\<rparr>))) = [False]"
proof -
  let ?sv = "\<lparr>var_id = 1, var_name = ''(L:cdsPage)'', float_value = None, initialized = False\<rparr>"
  let ?st = "\<lparr>sim_vars = [(1, ?sv)], sim_var_name_to_id = [(''(L:cdsPage)'', 1)], calls = [],
      incoming = [], sleeps = 0\<rparr>"
  have g: "fst (get ''(L:cdsPage)'' ?st) = Inr None"
    "map_of (sim_vars (snd (get ''(L:cdsPage)'' ?st))) 1 = Some ?sv"
    using get_pending_quiet[of ?st "''(L:cdsPage)''" 1 ?sv]
    by (simp_all add: no_notification_for_def)
  have k: "map fst (sim_vars (snd (get ''(L:cdsPage)'' ?st))) = [1]"
    using wait_loop_fields[of 1 0 ?st]
    by (simp add: get_def split: prod.splits option.splits if_splits)
       (auto simp: update_keys_present)
  obtain al where al: "sim_vars (snd (get ''(L:cdsPage)'' ?st)) = al" by simp
  from k obtain v where "al = [(1, v)]" unfolding al by (cases al) auto
  then show ?thesis using g unfolding al by simp
qed

text \<open>What a read does to the two dictionaries' keys and to the subscriptions requested.\<close>

lemma get_known:
  assumes "map_of (sim_var_name_to_id st) name = Some i"
  shows "sim_var_name_to_id (snd (get name st)) = sim_var_name_to_id st"
    and "calls (snd (get name st)) = calls st"
    and "map fst (sim_vars (snd (get name st))) = map fst (sim_vars st)"
proof -
  obtain c st2 where wl: "wait_loop i 0 st = (c, st2)" by (cases "wait_loop i 0 st")
  from wait_loop_fields[of i 0 st]
  have w: "sim_var_name_to_id st2 = sim_var_name_to_id st" "calls st2 = calls st"
    "map fst (sim_vars st2) = map fst (sim_vars st)"
    unfolding wl by simp_all
  show "sim_var_name_to_id (snd (get name st)) = sim_var_name_to_id st"
    using assms w by (simp add: get_def wl split: option.splits)
  show "calls (snd (get name st)) = calls st"
    using assms w by (simp add: get_def wl split: option.splits)
  show "map fst (sim_vars (snd (get name st))) = map fst (sim_vars st)"
    using assms w by (auto simp: get_def wl update_keys_present split: option.splits)
qed

lemma add_new_variable_fields:
  "sim_var_name_to_id (snd (add_new_variable name st)) =
     AList.update name (length (sim_vars st) + 1) (sim_var_name_to_id st)"
  "map fst (sim_vars (snd (add_new_variable name st))) =
     map fst (AList.update (length (sim_vars st) + 1)
        \<lparr>var_id = length (sim_vars st) + 1, var_name = name, float_value = None,
         initialized = False\<rparr> (sim_vars st))"
  "lvar_requests (calls (snd (add_new_variable name st))) =
     lvar_requests (calls st) @ [length (sim_vars st) + 1]"
  by (simp_all add: add_new_variable_def Let_def send_command_fields
      add_to_client_data_definition_def subscribe_to_data_change_def lvar_requests_append
      CLIENT_DATA_AREA_LVARS_def)

lemma get_after_add:
  assumes "st1 = snd (add_new_variable name st)"
    and new: "map_of (sim_var_name_to_id st) name = None"
  shows "sim_var_name_to_id (snd (get name st)) = sim_var_name_to_id st1
         \<and> lvar_requests (calls (snd (get name st))) = lvar_requests (calls st1)
         \<and> map fst (sim_vars (snd (get name st))) = map fst (sim_vars st1)"
proof -
  obtain exc where a: "add_new_variable name st = (exc, st1)"
    using assms by (cases "add_new_variable name st") simp
  show ?thesis
  proof (cases exc)
    case (Some e)
    then show ?thesis using new a by (simp add: get_def)
  next
    case None
    show ?thesis
    proof (cases "map_of (sim_var_name_to_id st1) name")
      case N: None
      then show ?thesis using new a None by (simp add: get_def)
    next
      case (Some i)
      obtain c st2 where wl: "wait_loop i 0 st1 = (c, st2)" by (cases "wait_loop i 0 st1")
      from wait_loop_fields[of i 0 st1]
      have w: "sim_var_name_to_id st2 = sim_var_name_to_id st1" "calls st2 = calls st1"
        "map fst (sim_vars st2) = map fst (sim_vars st1)"
        unfolding wl by simp_all
      show ?thesis
        using new a None Some w
        by (auto simp: get_def wl update_keys_present split: option.splits)
    qed
  qed
qed

lemma get_new:
  assumes "map_of (sim_var_name_to_id st) name = None"
  shows "sim_var_name_to_id (snd (get name st)) =
           sim_var_name_to_id st @ [(name, length (sim_vars st) + 1)]"
    and "lvar_requests (calls (snd (get name st))) =
           lvar_requests (calls st) @ [length (sim_vars st) + 1]"
    and "map_of (sim_vars st) (length (sim_vars st) + 1) = None \<Longrightarrow>
         map fst (sim_vars (snd (get name st))) = map fst (sim_vars st) @ [length (sim_vars st) + 1]"
  using get_after_add[OF refl assms] assms
  by (simp_all add: add_new_variable_fields update_absent)

lemma upt_keys_absent: "map fst al = [1..<Suc (length al)] \<Longrightarrow> map_of al (length al + 1) = None"
proof -
  assume a: "map fst al = [1..<Suc (length al)]"
  have "length al + 1 \<notin> set [1..<Suc (length al)]" by simp
  then have "length al + 1 \<notin> fst ` set al" using a by (metis set_map)
  then show ?thesis by (simp add: map_of_eq_None_iff)
qed

lemma first_seen_snoc:
  "rev (remdups (rev (ns @ [n]))) =
     (if n \<in> set ns then rev (remdups (rev ns)) else rev (remdups (rev ns)) @ [n])"
  by simp

lemma vr_init_fields:
  "sim_vars (vr_init env) = []" "sim_var_name_to_id (vr_init env) = []"
  "lvar_requests (calls (vr_init env)) = []"
  by (simp_all add: vr_init_def initialize_client_data_areas_def
      add_to_client_data_definition_def subscribe_to_data_change_def
      CLIENT_DATA_AREA_LVARS_def CLIENT_DATA_AREA_RESPONSE_def)

lemma reads_snoc: "reads (ns @ [n]) st = snd (get n (reads ns st))"
  by (simp add: reads_def)

lemma reads_first_seen:
  "sim_var_name_to_id (reads names (vr_init env)) =
     zip (rev (remdups (rev names))) [1..<Suc (length (remdups names))]
   \<and> map fst (sim_vars (reads names (vr_init env))) = [1..<Suc (length (remdups names))]
   \<and> lvar_requests (calls (reads names (vr_init env))) = [1..<Suc (length (remdups names))]"
proof (induction names rule: rev_induct)
  case Nil
  then show ?case by (simp add: reads_def vr_init_fields)
next
  case (snoc n ns)
  let ?st = "reads ns (vr_init env)"
  let ?F = "rev (remdups (rev ns))"
  have lenF: "length ?F = length (remdups ns)"
    by (metis length_rev length_remdups_card_conv set_rev)
  have len: "length (sim_vars ?st) = length (remdups ns)"
    using snoc by (metis length_map length_upt diff_Suc_1)
  have dom: "map_of (sim_var_name_to_id ?st) n = None \<longleftrightarrow> n \<notin> set ns"
  proof -
    have "fst ` set (sim_var_name_to_id ?st) = set ?F"
      using snoc lenF by (metis (no_types, lifting) length_upt diff_Suc_1 map_fst_zip set_map)
    then show ?thesis by (simp add: map_of_eq_None_iff)
  qed
  show ?case
  proof (cases "n \<in> set ns")
    case True
    then obtain i where i: "map_of (sim_var_name_to_id ?st) n = Some i" using dom by auto
    have l: "length (remdups (ns @ [n])) = length (remdups ns)"
      using True by (simp add: length_remdups_card_conv insert_absorb)
    show ?thesis
      unfolding reads_snoc first_seen_snoc l using True get_known[OF i] snoc by simp
  next
    case False
    then have new: "map_of (sim_var_name_to_id ?st) n = None" using dom by simp
    have l: "length (remdups (ns @ [n])) = Suc (length (remdups ns))"
      using False by (simp add: length_remdups_card_conv)
    have ab: "map_of (sim_vars ?st) (length (sim_vars ?st) + 1) = None"
      using snoc len by (intro upt_keys_absent) simp
    have z: "zip (?F @ [n]) [1..<Suc (Suc (length (remdups ns)))] =
             zip ?F [1..<Suc (length (remdups ns))] @ [(n, length (remdups ns) + 1)]"
    proof -
      have u: "[1..<Suc (Suc (length (remdups ns)))] =
               [1..<Suc (length (remdups ns))] @ [Suc (length (remdups ns))]"
        by simp
      have "length ?F = length [1..<Suc (length (remdups ns))]"
        by (simp only: lenF length_upt diff_Suc_1)
      then show ?thesis unfolding u by (subst zip_append) simp_all
    qed
    show ?thesis
      unfolding reads_snoc first_seen_snoc l
      using False get_new[OF new] ab snoc len z by simp
  qed
qed

text \<open>
  Claim C3. Starting from a fresh layer, after any run of reads the name-to-identifier
  dictionary pairs the distinct names, in the order in which they were first read, with
  1, 2, 3, ...; the variables' dictionary has exactly these identifiers as keys, and a change
  subscription was requested exactly once for each of them, in that order. So reading \<open>X\<close>,
  \<open>Y\<close>, \<open>X\<close> uses the identifiers 1, 2, 1. A read of a name that has its identifier
  leaves the dictionary of names, the keys of the variables and the calls on the transport
  as they were: nothing is reassigned or subscribed again. This holds whatever
  notifications arrive during the reads.
\<close>

theorem identifiers_first_seen_dense:
  "sim_var_name_to_id (reads names (vr_init env)) =
     zip (rev (remdups (rev names))) [1..<Suc (length (remdups names))]
   \<and> map fst (sim_vars (reads names (vr_init env))) = [1..<Suc (length (remdups names))]
   \<and> lvar_requests (calls (reads names (vr_init env))) = [1..<Suc (length (remdups names))]
   \<and> sim_var_name_to_id (reads [''X''] (vr_init env)) = [(''X'', 1)]
   \<and> sim_var_name_to_id (reads [''X'', ''Y''] (vr_init env)) = [(''X'', 1), (''Y'', 2)]
   \<and> sim_var_name_to_id (reads [''X'', ''Y'', ''X''] (vr_init env)) = [(''X'', 1), (''Y'', 2)]
   \<and> lvar_requests (calls (reads [''X'', ''Y'', ''X''] (vr_init env))) = [1, 2]
   \<and> (map_of (sim_var_name_to_id st) name = Some i \<longrightarrow>
        sim_var_name_to_id (snd (get name st)) = sim_var_name_to_id st
        \<and> calls (snd (get name st)) = calls st
        \<and> map fst (sim_vars (snd (get name st))) = map fst (sim_vars st))"
proof -
  have u: "[1..<Suc (Suc 0)] = [1]" "[1..<Suc (Suc (Suc 0))] = [1, 2]"
    by (simp_all add: upt_rec)
  have x: "sim_var_name_to_id (reads [''X''] (vr_init env)) = [(''X'', 1)]"
    using reads_first_seen[of "[''X'']" env] by (simp add: u)
  have xy: "sim_var_name_to_id (reads [''X'', ''Y''] (vr_init env)) = [(''X'', 1), (''Y'', 2)]"
    using reads_first_seen[of "[''X'', ''Y'']" env] by (simp add: u)
  have xyx: "sim_var_name_to_id (reads [''X'', ''Y'', ''X''] (vr_init env)) = [(''X'', 1), (''Y'', 2)]"
    "lvar_requests (calls (reads [''X'', ''Y'', ''X''] (vr_init env))) = [1, 2]"
    using reads_first_seen[of "[''X'', ''Y'', ''X'']" env] by (simp_all add: u)
  show ?thesis
    using reads_first_seen[of names env] x xy xyx get_known[of st name i] by blast
qed

theorem identifiers_first_seen_dense_witness:
  "sim_var_name_to_id (snd (get ''(L:cdsPage)''
     \<lparr>sim_vars = [(1, \<lparr>var_id = 1, var_name = ''(L:cdsPage)'', float_value = None,
                       initialized = False\<rparr>)],
      sim_var_name_to_id = [(''(L:cdsPage)'', 1)], calls = [],
      incoming = [[\<lparr>dwDefineID = 1, dwData_float = Finite 1\<rparr>]], sleeps = 0\<rparr>))
     = [(''(L:cdsPage)'', 1)]
   \<and> calls (snd (get ''(L:cdsPage)''
     \<lparr>sim_vars = [(1, \<lparr>var_id = 1, var_name = ''(L:cdsPage)'', float_value = None,
                       initialized = False\<rparr>)],
      sim_var_name_to_id = [(''(L:cdsPage)'', 1)], calls = [],
      incoming = [[\<lparr>dwDefineID = 1, dwData_float = Finite 1\<rparr>]], sleeps = 0\<rparr>)) = []"
  using identifiers_first_seen_dense[where name = "''(L:cdsPage)''" and i = 1 and st =
      "\<lparr>sim_vars = [(1, \<lparr>var_id = 1, var_name = ''(L:cdsPage)'', float_value = None,
                       initialized = False\<rparr>)],
        sim_var_name_to_id = [(''(L:cdsPage)'', 1)], calls = [],
        incoming = [[\<lparr>dwDefineID = 1, dwData_float = Finite 1\<rparr>]], sleeps = 0\<rparr>"]
  by simp

lemma clear_fields:
  "fst (clear_sim_variables st) = None"
  "sim_vars (snd (clear_sim_variables st)) = []"
  "sim_var_name_to_id (snd (clear_sim_variables st)) = []"
  "lvar_requests (calls (snd (clear_sim_variables st))) = lvar_requests (calls st)"
  by (simp_all add: clear_sim_variables_def send_command_def send_data_def DATA_STRING_SIZE_def
      lvar_requests_append)

text \<open>
  Claim C10. \<open>clear_sim_variables\<close> raises nothing and leaves both dictionaries empty. The
  next read of any name then assigns identifier 1: the dictionary of names is that name
  with 1, the variables have the single key 1, and a subscription for identifier 1 is
  requested again. After reading \<open>X\<close> and \<open>Y\<close> and a reset, a read of \<open>Y\<close> gives it
  identifier 1 (it had 2), and the subscriptions requested over the whole run are for
  1, 2, 1: the numbering restarts and identifiers are reused.
\<close>

theorem clear_restarts_identifiers:
  "fst (clear_sim_variables st) = None
   \<and> sim_vars (snd (clear_sim_variables st)) = []
   \<and> sim_var_name_to_id (snd (clear_sim_variables st)) = []
   \<and> sim_var_name_to_id (snd (get name (snd (clear_sim_variables st)))) = [(name, 1)]
   \<and> map fst (sim_vars (snd (get name (snd (clear_sim_variables st))))) = [1]
   \<and> lvar_requests (calls (snd (get name (snd (clear_sim_variables st))))) =
        lvar_requests (calls st) @ [1]
   \<and> sim_var_name_to_id
        (snd (get ''Y'' (snd (clear_sim_variables (reads [''X'', ''Y''] (vr_init env))))))
        = [(''Y'', 1)]
   \<and> lvar_requests (calls
        (snd (get ''Y'' (snd (clear_sim_variables (reads [''X'', ''Y''] (vr_init env)))))))
        = [1, 2, 1]"
proof -
  have g: "sim_var_name_to_id (snd (get n (snd (clear_sim_variables s)))) = [(n, 1)]
           \<and> map fst (sim_vars (snd (get n (snd (clear_sim_variables s))))) = [1]
           \<and> lvar_requests (calls (snd (get n (snd (clear_sim_variables s))))) =
                lvar_requests (calls s) @ [1]" for n s
  proof -
    let ?c = "snd (clear_sim_variables s)"
    have new: "map_of (sim_var_name_to_id ?c) n = None" by (simp add: clear_fields)
    have ab: "map_of (sim_vars ?c) (length (sim_vars ?c) + 1) = None" by (simp add: clear_fields)
    show ?thesis
      using get_new(1,2)[OF new] get_new(3)[OF new ab] by (simp add: clear_fields)
  qed
  have r: "lvar_requests (calls (reads [''X'', ''Y''] (vr_init env))) = [1, 2]"
    using reads_first_seen[of "[''X'', ''Y'']" env] by (simp add: upt_rec)
  show ?thesis
    using clear_fields(1-3)[of st] g[of name st] g[of "''Y''" "reads [''X'', ''Y''] (vr_init env)"] r
    by simp
qed

section \<open>The reconnecting sender\<close>

lemma tfo_Cons:
  "transport_failures_only (out # rest) \<longleftrightarrow>
     (out = None \<or> out = Some WebSocketException \<or> out = Some OSError)
     \<and> transport_failures_only rest"
  by (auto simp: transport_failures_only_def)

lemma tfo_Nil: "transport_failures_only []"
  by (simp add: transport_failures_only_def)

lemma sends_append: "sends (xs @ ys) = sends xs @ sends ys"
  by (simp add: sends_def)

lemma lib_call_cases:
  assumes "transport_failures_only (outcomes s)"
  shows "\<exists>out s'. lib_call c s = (out, s')
           \<and> (out = None \<or> out = Some WebSocketException \<or> out = Some OSError)
           \<and> transport_failures_only (outcomes s')
           \<and> trace s' = trace s @ [(c, out)]
           \<and> ws s' = ws s \<and> next_handle s' = next_handle s
           \<and> last_ping s' = last_ping s \<and> ping_interval s' = ping_interval s"
  using assms by (cases "outcomes s") (auto simp: lib_call_def tfo_Cons tfo_Nil)

lemma close_quietly_cases:
  assumes "transport_failures_only (outcomes s)"
  shows "\<exists>s' new. close_quietly s = (None, s')
           \<and> transport_failures_only (outcomes s')
           \<and> trace s' = trace s @ new \<and> sends new = [] \<and> ws s' = None
           \<and> (\<forall>h. ws s = Some h \<longrightarrow> (\<exists>out. new = [(Close h, out)]))
           \<and> (ws s = None \<longrightarrow> new = [])"
proof (cases "ws s")
  case None
  then show ?thesis using assms by (simp add: close_quietly_def sends_def)
next
  case (Some h)
  from lib_call_cases[OF assms, of "Close h"]
  obtain out s1 where l: "lib_call (Close h) s = (out, s1)"
    "out = None \<or> out = Some WebSocketException \<or> out = Some OSError"
    "transport_failures_only (outcomes s1)" "trace s1 = trace s @ [(Close h, out)]"
    by blast
  then show ?thesis
    using Some by (auto simp: close_quietly_def is_Exception_def sends_def)
qed

lemma connect_cases:
  assumes "transport_failures_only (outcomes s)"
  shows "\<exists>r s' new. connect s = (r, s')
           \<and> (r = None \<or> r = Some WebSocketException \<or> r = Some OSError)
           \<and> transport_failures_only (outcomes s')
           \<and> trace s' = trace s @ new \<and> sends new = []
           \<and> new \<noteq> [] \<and> fst (hd new) = Connect (next_handle s)
           \<and> (\<forall>c\<in>set new. \<forall>h. fst c \<noteq> Close h)
           \<and> (r = None \<longrightarrow> ws s' \<noteq> None)
           \<and> (\<forall>h. (Connect h, None) \<in> set new \<longrightarrow> ws s' = Some h)
           \<and> ((\<forall>h. (Connect h, None) \<notin> set new) \<longrightarrow> ws s' = ws s)
           \<and> last_ping s' = last_ping s \<and> ping_interval s' = ping_interval s"
proof -
  let ?h = "next_handle s"
  let ?s0 = "s\<lparr>next_handle := ?h + 1\<rparr>"
  have t0: "transport_failures_only (outcomes ?s0)" using assms by simp
  from lib_call_cases[OF t0, of "Connect ?h"]
  obtain o1 s1 where l1: "lib_call (Connect ?h) ?s0 = (o1, s1)"
    "o1 = None \<or> o1 = Some WebSocketException \<or> o1 = Some OSError"
    "transport_failures_only (outcomes s1)" "trace s1 = trace s @ [(Connect ?h, o1)]"
    "ws s1 = ws s" "last_ping s1 = last_ping s" "ping_interval s1 = ping_interval s"
    by auto
  show ?thesis
  proof (cases o1)
    case (Some e)
    then show ?thesis using l1 by (auto simp: connect_def sends_def)
  next
    case None
    let ?s2 = "s1\<lparr>ws := Some ?h\<rparr>"
    have t2: "transport_failures_only (outcomes ?s2)" using l1(3) by simp
    from lib_call_cases[OF t2, of "SetTimeout ?h"]
    obtain o2 s3 where l2: "lib_call (SetTimeout ?h) ?s2 = (o2, s3)"
      "o2 = None \<or> o2 = Some WebSocketException \<or> o2 = Some OSError"
      "transport_failures_only (outcomes s3)" "trace s3 = trace s1 @ [(SetTimeout ?h, o2)]"
      "ws s3 = Some ?h" "last_ping s3 = last_ping s1" "ping_interval s3 = ping_interval s1"
      by auto
    have "connect s = (o2, s3)" using l1(1) None l2(1) by (simp add: connect_def)
    then show ?thesis using l1 l2 None by (auto simp: sends_def)
  qed
qed

lemma maybe_ping_cases:
  assumes "transport_failures_only (outcomes s)"
  shows "\<exists>s' new. maybe_ping now s = (None, s')
           \<and> transport_failures_only (outcomes s')
           \<and> trace s' = trace s @ new \<and> sends new = []"
proof (cases "now - last_ping s \<ge> ping_interval s")
  case False
  then show ?thesis using assms by (simp add: maybe_ping_def sends_def)
next
  case True
  show ?thesis
  proof (cases "ws s")
    case None
    then show ?thesis using assms True by (simp add: maybe_ping_def sends_def)
  next
    case (Some h)
    from lib_call_cases[OF assms, of "Ping h"]
    obtain o1 s1 where l1: "lib_call (Ping h) s = (o1, s1)"
      "o1 = None \<or> o1 = Some WebSocketException \<or> o1 = Some OSError"
      "transport_failures_only (outcomes s1)" "trace s1 = trace s @ [(Ping h, o1)]"
      by blast
    show ?thesis
    proof (cases o1)
      case None
      then show ?thesis using l1 Some True by (auto simp: maybe_ping_def sends_def)
    next
      case E: (Some e)
      from close_quietly_cases[OF l1(3)]
      obtain s2 new2 where c: "close_quietly s1 = (None, s2)"
        "transport_failures_only (outcomes s2)" "trace s2 = trace s1 @ new2" "sends new2 = []"
        by blast
      have "maybe_ping now s = (None, s2)"
        using l1 E Some True c(1) by (auto simp: maybe_ping_def is_Exception_def)
      then show ?thesis using c l1(4) by (auto simp: sends_def)
    qed
  qed
qed

lemma send_phase_cases:
  assumes "transport_failures_only (outcomes s0)"
  shows "\<exists>r s1 new.
           (let (r2, s2) = lib_call (Send h p) s0 in
            case r2 of Some e \<Rightarrow> (Some e, s2) | None \<Rightarrow> maybe_ping now s2) = (r, s1)
           \<and> (r = None \<or> r = Some WebSocketException \<or> r = Some OSError)
           \<and> transport_failures_only (outcomes s1)
           \<and> trace s1 = trace s0 @ new \<and> length (sends new) = 1
           \<and> fst (hd new) = Send h p \<and> new \<noteq> []
           \<and> (r = None \<longrightarrow> (Send h p, None) \<in> set new)
           \<and> (r \<noteq> None \<longrightarrow> new = [(Send h p, r)] \<and> ws s1 = ws s0)"
proof -
  from lib_call_cases[OF assms, of "Send h p"]
  obtain o1 s2 where l: "lib_call (Send h p) s0 = (o1, s2)"
    "o1 = None \<or> o1 = Some WebSocketException \<or> o1 = Some OSError"
    "transport_failures_only (outcomes s2)" "trace s2 = trace s0 @ [(Send h p, o1)]"
    "ws s2 = ws s0"
    by blast
  show ?thesis
  proof (cases o1)
    case (Some e)
    then show ?thesis using l by (auto simp: sends_def)
  next
    case None
    from maybe_ping_cases[OF l(3), of now]
    obtain s3 new3 where m: "maybe_ping now s2 = (None, s3)"
      "transport_failures_only (outcomes s3)" "trace s3 = trace s2 @ new3" "sends new3 = []"
      by blast
    have s: "sends ((Send h p, None) # new3) = [(Send h p, None)]"
      using m(4) by (simp add: sends_def)
    show ?thesis
      using l None m s by (intro exI[of _ None] exI[of _ s3] exI[of _ "(Send h p, None) # new3"]) simp
  qed
qed

lemma try_send_cases:
  assumes "transport_failures_only (outcomes s)"
  shows "\<exists>r s1 new. try_send p now s = (r, s1)
           \<and> (r = None \<or> r = Some WebSocketException \<or> r = Some OSError)
           \<and> transport_failures_only (outcomes s1)
           \<and> trace s1 = trace s @ new \<and> length (sends new) \<le> 1
           \<and> (r = None \<longrightarrow> (\<exists>h. (Send h p, None) \<in> set new))
           \<and> (r \<noteq> None \<longrightarrow>
                 (\<forall>c\<in>set (sends new). snd c \<noteq> None)
                 \<and> (\<forall>h. ws s = Some h \<or> (Connect h, None) \<in> set new \<longrightarrow> ws s1 = Some h))
           \<and> (ws s = None \<longrightarrow> new \<noteq> [] \<and> fst (hd new) = Connect (next_handle s))"
proof (cases "ws s")
  case (Some h)
  from send_phase_cases[OF assms, of h p now]
  obtain r s1 new where sp:
    "(let (r2, s2) = lib_call (Send h p) s in
       case r2 of Some e \<Rightarrow> (Some e, s2) | None \<Rightarrow> maybe_ping now s2) = (r, s1)"
    "r = None \<or> r = Some WebSocketException \<or> r = Some OSError"
    "transport_failures_only (outcomes s1)" "trace s1 = trace s @ new" "length (sends new) = 1"
    "r = None \<longrightarrow> (Send h p, None) \<in> set new"
    "r \<noteq> None \<longrightarrow> new = [(Send h p, r)] \<and> ws s1 = ws s"
    by blast
  have e: "try_send p now s = (r, s1)"
    using Some sp(1) by (simp add: try_send_def ensure_def)
  have f: "r \<noteq> None \<longrightarrow>
             (\<forall>c\<in>set (sends new). snd c \<noteq> None)
             \<and> (\<forall>h'. ws s = Some h' \<or> (Connect h', None) \<in> set new \<longrightarrow> ws s1 = Some h')"
    using sp(7) Some by (auto simp: sends_def)
  have l: "length (sends new) \<le> 1" using sp(5) by simp
  have d: "r = None \<longrightarrow> (\<exists>h. (Send h p, None) \<in> set new)" using sp(6) by blast
  have hd: "ws s = None \<longrightarrow> new \<noteq> [] \<and> fst (hd new) = Connect (next_handle s)"
    using Some by simp
  show ?thesis
    using e sp(2-4) l d f hd by (intro exI[of _ r] exI[of _ s1] exI[of _ new]) blast
next
  case None
  from connect_cases[OF assms]
  obtain r0 s0 new0 where c: "connect s = (r0, s0)"
    "r0 = None \<or> r0 = Some WebSocketException \<or> r0 = Some OSError"
    "transport_failures_only (outcomes s0)" "trace s0 = trace s @ new0" "sends new0 = []"
    "new0 \<noteq> []" "fst (hd new0) = Connect (next_handle s)"
    "r0 = None \<longrightarrow> ws s0 \<noteq> None"
    "\<forall>h. (Connect h, None) \<in> set new0 \<longrightarrow> ws s0 = Some h"
    by blast
  show ?thesis
  proof (cases r0)
    case (Some e)
    then have e: "try_send p now s = (r0, s0)"
      using None c(1) by (simp add: try_send_def ensure_def)
    show ?thesis
      using e c Some None by (intro exI[of _ r0] exI[of _ s0] exI[of _ new0]) auto
  next
    case N: None
    then obtain h where h: "ws s0 = Some h" using c(8) by auto
    from send_phase_cases[OF c(3), of h p now]
    obtain r s1 new where sp:
      "(let (r2, s2) = lib_call (Send h p) s0 in
         case r2 of Some e \<Rightarrow> (Some e, s2) | None \<Rightarrow> maybe_ping now s2) = (r, s1)"
      "r = None \<or> r = Some WebSocketException \<or> r = Some OSError"
      "transport_failures_only (outcomes s1)" "trace s1 = trace s0 @ new" "length (sends new) = 1"
      "r = None \<longrightarrow> (Send h p, None) \<in> set new"
      "r \<noteq> None \<longrightarrow> new = [(Send h p, r)] \<and> ws s1 = ws s0"
      by blast
    have e: "try_send p now s = (r, s1)"
      using None c(1) N h sp(1) by (simp add: try_send_def ensure_def)
    have t: "trace s1 = trace s @ (new0 @ new)" using c(4) sp(4) by simp
    have l: "length (sends (new0 @ new)) \<le> 1" using c(5) sp(5) by (simp add: sends_append)
    have d: "r = None \<longrightarrow> (\<exists>h. (Send h p, None) \<in> set (new0 @ new))" using sp(6) by auto
    have f: "r \<noteq> None \<longrightarrow>
             (\<forall>c\<in>set (sends (new0 @ new)). snd c \<noteq> None)
             \<and> (\<forall>h'. ws s = Some h' \<or> (Connect h', None) \<in> set (new0 @ new) \<longrightarrow> ws s1 = Some h')"
      using sp(7) c(5) c(9) None by (auto simp: sends_append sends_def)
    have hd: "new0 @ new \<noteq> [] \<and> fst (hd (new0 @ new)) = Connect (next_handle s)"
      using c(6) c(7) by simp
    show ?thesis
      using e sp(2) sp(3) t l d f hd
      by (intro exI[of _ r] exI[of _ s1] exI[of _ "new0 @ new"]) blast
  qed
qed

text \<open>One attempt under transport failures only: it raises nothing, makes at most one
  transmission, and when it fails no transmission succeeded, the connection it had or made
  was closed, and no connection is kept.\<close>

lemma attempt_cases:
  assumes "transport_failures_only (outcomes s)"
  shows "\<exists>r s' new. attempt p now s = (r, s')
           \<and> (r = Sent \<or> r = Failed)
           \<and> transport_failures_only (outcomes s')
           \<and> trace s' = trace s @ new \<and> length (sends new) \<le> 1
           \<and> (r = Sent \<longrightarrow> (\<exists>h. (Send h p, None) \<in> set new))
           \<and> (r = Failed \<longrightarrow>
                 ws s' = None
                 \<and> (\<forall>c\<in>set (sends new). snd c \<noteq> None)
                 \<and> (\<forall>h. ws s = Some h \<or> (Connect h, None) \<in> set new \<longrightarrow>
                        (\<exists>out. (Close h, out) \<in> set new)))
           \<and> (ws s = None \<longrightarrow> new \<noteq> [] \<and> fst (hd new) = Connect (next_handle s))"
proof -
  from try_send_cases[OF assms, of p now]
  obtain r1 s1 new1 where t: "try_send p now s = (r1, s1)"
    "r1 = None \<or> r1 = Some WebSocketException \<or> r1 = Some OSError"
    "transport_failures_only (outcomes s1)" "trace s1 = trace s @ new1"
    "length (sends new1) \<le> 1"
    "r1 = None \<longrightarrow> (\<exists>h. (Send h p, None) \<in> set new1)"
    "r1 \<noteq> None \<longrightarrow>
       (\<forall>c\<in>set (sends new1). snd c \<noteq> None)
       \<and> (\<forall>h. ws s = Some h \<or> (Connect h, None) \<in> set new1 \<longrightarrow> ws s1 = Some h)"
    "ws s = None \<longrightarrow> new1 \<noteq> [] \<and> fst (hd new1) = Connect (next_handle s)"
    by (elim exE conjE) (rule that; assumption)
  show ?thesis
  proof (cases r1)
    case None
    then have e: "attempt p now s = (Sent, s1)" using t(1) by (simp add: attempt_def)
    show ?thesis
      using e t(3-6,8) None by (intro exI[of _ Sent] exI[of _ s1] exI[of _ new1]) simp
  next
    case (Some e)
    then have tr: "e = WebSocketException \<or> e = OSError" using t(2) by auto
    from close_quietly_cases[OF t(3)]
    obtain s2 new2 where c: "close_quietly s1 = (None, s2)"
      "transport_failures_only (outcomes s2)" "trace s2 = trace s1 @ new2" "sends new2 = []"
      "ws s2 = None" "\<forall>h. ws s1 = Some h \<longrightarrow> (\<exists>out. new2 = [(Close h, out)])"
      "ws s1 = None \<longrightarrow> new2 = []"
      by (elim exE conjE) (rule that; assumption)
    have a: "attempt p now s = (Failed, s2\<lparr>ws := None\<rparr>)"
      using t(1) Some tr c(1) by (auto simp: attempt_def)
    have tr2: "trace (s2\<lparr>ws := None\<rparr>) = trace s @ (new1 @ new2)" using t(4) c(3) by simp
    have l: "length (sends (new1 @ new2)) \<le> 1" using t(5) c(4) by (simp add: sends_append)
    have ns: "\<forall>c\<in>set (sends (new1 @ new2)). snd c \<noteq> None"
      using t(7) Some c(4) by (simp add: sends_append)
    have cl: "\<exists>out. (Close h, out) \<in> set (new1 @ new2)"
      if "ws s = Some h \<or> (Connect h, None) \<in> set (new1 @ new2)" for h
    proof -
      have "(Connect h, None) \<notin> set new2" using c(6) c(7) by (cases "ws s1") auto
      then have "ws s = Some h \<or> (Connect h, None) \<in> set new1" using that by auto
      then have "ws s1 = Some h" using t(7) Some by blast
      then show ?thesis using c(6) by auto
    qed
    have hd: "ws s = None \<longrightarrow> new1 @ new2 \<noteq> [] \<and> fst (hd (new1 @ new2)) = Connect (next_handle s)"
      using t(8) by simp
    show ?thesis
      using a c(2) tr2 l ns cl hd
      by (intro exI[of _ Failed] exI[of _ "s2\<lparr>ws := None\<rparr>"] exI[of _ "new1 @ new2"]) simp
  qed
qed

lemma new_calls_append: "trace s' = trace s @ new \<Longrightarrow> new_calls s s' = new"
  by (simp add: new_calls_def)

text \<open>The exact calls of each step, with the state that it leaves.\<close>

lemma close_quietly_exact:
  assumes "transport_failures_only (outcomes s)" and "ws s = Some h"
  shows "\<exists>out s'. close_quietly s = (None, s')
           \<and> transport_failures_only (outcomes s')
           \<and> trace s' = trace s @ [(Close h, out)] \<and> ws s' = None
           \<and> next_handle s' = next_handle s
           \<and> last_ping s' = last_ping s \<and> ping_interval s' = ping_interval s"
proof -
  from lib_call_cases[OF assms(1), of "Close h"]
  obtain out s1 where l: "lib_call (Close h) s = (out, s1)"
    "out = None \<or> out = Some WebSocketException \<or> out = Some OSError"
    "transport_failures_only (outcomes s1)" "trace s1 = trace s @ [(Close h, out)]"
    "next_handle s1 = next_handle s" "last_ping s1 = last_ping s"
    "ping_interval s1 = ping_interval s"
    by blast
  have "close_quietly s = (None, s1\<lparr>ws := None\<rparr>)"
    using l(1,2) assms(2) by (auto simp: close_quietly_def is_Exception_def)
  then show ?thesis using l(3-7) by simp
qed

lemma connect_exact:
  assumes "transport_failures_only (outcomes s)"
  shows "\<exists>r s'. connect s = (r, s')
           \<and> transport_failures_only (outcomes s')
           \<and> next_handle s' = Suc (next_handle s)
           \<and> last_ping s' = last_ping s \<and> ping_interval s' = ping_interval s
           \<and> ((r = None \<and> ws s' = Some (next_handle s)
                 \<and> trace s' = trace s @ [(Connect (next_handle s), None),
                                          (SetTimeout (next_handle s), None)])
              \<or> (\<exists>e. r = Some e \<and> (e = WebSocketException \<or> e = OSError) \<and> ws s' = ws s
                    \<and> trace s' = trace s @ [(Connect (next_handle s), Some e)])
              \<or> (\<exists>e. r = Some e \<and> (e = WebSocketException \<or> e = OSError)
                    \<and> ws s' = Some (next_handle s)
                    \<and> trace s' = trace s @ [(Connect (next_handle s), None),
                                             (SetTimeout (next_handle s), Some e)]))"
proof -
  let ?h = "next_handle s"
  let ?s0 = "s\<lparr>next_handle := ?h + 1\<rparr>"
  have t0: "transport_failures_only (outcomes ?s0)" using assms by simp
  from lib_call_cases[OF t0, of "Connect ?h"]
  obtain o1 s1 where l1: "lib_call (Connect ?h) ?s0 = (o1, s1)"
    "o1 = None \<or> o1 = Some WebSocketException \<or> o1 = Some OSError"
    "transport_failures_only (outcomes s1)" "trace s1 = trace s @ [(Connect ?h, o1)]"
    "ws s1 = ws s" "next_handle s1 = Suc ?h" "last_ping s1 = last_ping s"
    "ping_interval s1 = ping_interval s"
    by auto
  show ?thesis
  proof (cases o1)
    case (Some e)
    then have "connect s = (Some e, s1)" using l1(1) by (simp add: connect_def)
    then show ?thesis using l1 Some by auto
  next
    case None
    let ?s2 = "s1\<lparr>ws := Some ?h\<rparr>"
    have t2: "transport_failures_only (outcomes ?s2)" using l1(3) by simp
    from lib_call_cases[OF t2, of "SetTimeout ?h"]
    obtain o2 s3 where l2: "lib_call (SetTimeout ?h) ?s2 = (o2, s3)"
      "o2 = None \<or> o2 = Some WebSocketException \<or> o2 = Some OSError"
      "transport_failures_only (outcomes s3)" "trace s3 = trace s1 @ [(SetTimeout ?h, o2)]"
      "ws s3 = Some ?h" "next_handle s3 = next_handle s1" "last_ping s3 = last_ping s1"
      "ping_interval s3 = ping_interval s1"
      by auto
    have "connect s = (o2, s3)" using l1(1) None l2(1) by (simp add: connect_def)
    then show ?thesis using l1 l2 None by auto
  qed
qed

lemma maybe_ping_exact:
  assumes "transport_failures_only (outcomes s)" and "ws s = Some h"
  shows "\<exists>s'. maybe_ping now s = (None, s')
           \<and> transport_failures_only (outcomes s')
           \<and> next_handle s' = next_handle s \<and> ping_interval s' = ping_interval s
           \<and> ((\<not> ping_interval s \<le> now - last_ping s \<and> ws s' = Some h \<and> trace s' = trace s)
              \<or> (ping_interval s \<le> now - last_ping s \<and> ws s' = Some h
                    \<and> trace s' = trace s @ [(Ping h, None)])
              \<or> (ping_interval s \<le> now - last_ping s \<and> ws s' = None
                    \<and> (\<exists>e out. (e = WebSocketException \<or> e = OSError)
                          \<and> trace s' = trace s @ [(Ping h, Some e), (Close h, out)])))"
proof (cases "ping_interval s \<le> now - last_ping s")
  case False
  then show ?thesis using assms by (simp add: maybe_ping_def)
next
  case True
  from lib_call_cases[OF assms(1), of "Ping h"]
  obtain o1 s1 where l1: "lib_call (Ping h) s = (o1, s1)"
    "o1 = None \<or> o1 = Some WebSocketException \<or> o1 = Some OSError"
    "transport_failures_only (outcomes s1)" "trace s1 = trace s @ [(Ping h, o1)]"
    "ws s1 = ws s" "next_handle s1 = next_handle s" "ping_interval s1 = ping_interval s"
    by blast
  show ?thesis
  proof (cases o1)
    case None
    then have "maybe_ping now s = (None, s1\<lparr>last_ping := now\<rparr>)"
      using l1(1) assms(2) True by (simp add: maybe_ping_def)
    then show ?thesis using l1 None True assms(2) by simp
  next
    case (Some e)
    have w1: "ws s1 = Some h" using l1(5) assms(2) by simp
    from close_quietly_exact[OF l1(3) w1]
    obtain out s2 where c: "close_quietly s1 = (None, s2)"
      "transport_failures_only (outcomes s2)" "trace s2 = trace s1 @ [(Close h, out)]"
      "ws s2 = None" "next_handle s2 = next_handle s1" "ping_interval s2 = ping_interval s1"
      by blast
    have "maybe_ping now s = (None, s2)"
      using l1(1,2) Some assms(2) True c(1) by (auto simp: maybe_ping_def is_Exception_def)
    then show ?thesis using l1 Some True c by auto
  qed
qed

text \<open>From a state with connection \<open>c\<close>: the transmission, and what follows it.\<close>

lemma send_phase_exact:
  assumes "transport_failures_only (outcomes s0)" and "ws s0 = Some c"
  shows "\<exists>r s1 cs failed.
           attempt p now s0 = (r, s1) \<and> (r = (if failed then Failed else Sent))
           \<and> transport_failures_only (outcomes s1)
           \<and> trace s1 = trace s0 @ cs
           \<and> next_handle s1 = next_handle s0 \<and> ping_interval s1 = ping_interval s0
           \<and> (failed \<longrightarrow> last_ping s1 = last_ping s0)
           \<and> ((failed \<and> ws s1 = None
                 \<and> (\<exists>e out. (e = WebSocketException \<or> e = OSError)
                       \<and> cs = [(Send c p, Some e), (Close c, out)]))
              \<or> (\<not> failed \<and> \<not> ping_interval s0 \<le> now - last_ping s0 \<and> ws s1 = Some c
                    \<and> cs = [(Send c p, None)])
              \<or> (\<not> failed \<and> ping_interval s0 \<le> now - last_ping s0 \<and> ws s1 = Some c
                    \<and> cs = [(Send c p, None), (Ping c, None)])
              \<or> (\<not> failed \<and> ping_interval s0 \<le> now - last_ping s0 \<and> ws s1 = None
                    \<and> (\<exists>e out. (e = WebSocketException \<or> e = OSError)
                          \<and> cs = [(Send c p, None), (Ping c, Some e), (Close c, out)])))"
proof -
  from lib_call_cases[OF assms(1), of "Send c p"]
  obtain o1 s2 where l: "lib_call (Send c p) s0 = (o1, s2)"
    "o1 = None \<or> o1 = Some WebSocketException \<or> o1 = Some OSError"
    "transport_failures_only (outcomes s2)" "trace s2 = trace s0 @ [(Send c p, o1)]"
    "ws s2 = ws s0" "next_handle s2 = next_handle s0" "last_ping s2 = last_ping s0"
    "ping_interval s2 = ping_interval s0"
    by blast
  have w2: "ws s2 = Some c" using l(5) assms(2) by simp
  show ?thesis
  proof (cases o1)
    case (Some e)
    then have tr: "e = WebSocketException \<or> e = OSError" using l(2) by auto
    have ts: "try_send p now s0 = (Some e, s2)"
      using l(1) Some assms(2) by (simp add: try_send_def ensure_def)
    from close_quietly_exact[OF l(3) w2]
    obtain out s3 where c: "close_quietly s2 = (None, s3)"
      "transport_failures_only (outcomes s3)" "trace s3 = trace s2 @ [(Close c, out)]"
      "ws s3 = None" "next_handle s3 = next_handle s2" "last_ping s3 = last_ping s2"
      "ping_interval s3 = ping_interval s2"
      by blast
    have a: "attempt p now s0 = (Failed, s3\<lparr>ws := None\<rparr>)"
      using ts tr c(1) by (auto simp: attempt_def)
    show ?thesis
      using a c l Some tr
      by (intro exI[of _ Failed] exI[of _ "s3\<lparr>ws := None\<rparr>"]
          exI[of _ "[(Send c p, Some e), (Close c, out)]"] exI[of _ True]) auto
  next
    case None
    from maybe_ping_exact[OF l(3) w2, of now]
    obtain s3 where m: "maybe_ping now s2 = (None, s3)"
      "transport_failures_only (outcomes s3)" "next_handle s3 = next_handle s2"
      "ping_interval s3 = ping_interval s2"
      "(\<not> ping_interval s2 \<le> now - last_ping s2 \<and> ws s3 = Some c \<and> trace s3 = trace s2)
       \<or> (ping_interval s2 \<le> now - last_ping s2 \<and> ws s3 = Some c
             \<and> trace s3 = trace s2 @ [(Ping c, None)])
       \<or> (ping_interval s2 \<le> now - last_ping s2 \<and> ws s3 = None
             \<and> (\<exists>e out. (e = WebSocketException \<or> e = OSError)
                   \<and> trace s3 = trace s2 @ [(Ping c, Some e), (Close c, out)]))"
      by blast
    have ts: "try_send p now s0 = (None, s3)"
      using l(1) None assms(2) m(1) by (simp add: try_send_def ensure_def)
    have a: "attempt p now s0 = (Sent, s3)" using ts by (simp add: attempt_def)
    obtain cs where cs: "trace s3 = trace s0 @ cs"
      "(\<not> ping_interval s0 \<le> now - last_ping s0 \<and> ws s3 = Some c \<and> cs = [(Send c p, None)])
       \<or> (ping_interval s0 \<le> now - last_ping s0 \<and> ws s3 = Some c
             \<and> cs = [(Send c p, None), (Ping c, None)])
       \<or> (ping_interval s0 \<le> now - last_ping s0 \<and> ws s3 = None
             \<and> (\<exists>e out. (e = WebSocketException \<or> e = OSError)
                   \<and> cs = [(Send c p, None), (Ping c, Some e), (Close c, out)]))"
      using m(5) l(4,7,8) None by auto
    show ?thesis
      using a m(2-4) l(6,8) cs
      by (intro exI[of _ Sent] exI[of _ s3] exI[of _ cs] exI[of _ False]) auto
  qed
qed

text \<open>One attempt makes exactly the calls that the spec's algorithm describes.\<close>

lemma attempt_exact:
  assumes "transport_failures_only (outcomes s)"
  shows "\<exists>r s1 cs failed.
           attempt p now s = (r, s1) \<and> (r = (if failed then Failed else Sent))
           \<and> transport_failures_only (outcomes s1)
           \<and> trace s1 = trace s @ cs
           \<and> next_handle s1 = (if ws s = None then Suc (next_handle s) else next_handle s)
           \<and> ping_interval s1 = ping_interval s
           \<and> (failed \<longrightarrow> last_ping s1 = last_ping s \<and> ws s1 = None)
           \<and> attempt_calls p (ping_interval s \<le> now - last_ping s) (ws s) (next_handle s)
                 cs failed (ws s1)"
proof (cases "ws s")
  case (Some c)
  from send_phase_exact[OF assms Some, of p now]
  obtain r s1 cs failed where sp: "attempt p now s = (r, s1)"
    "r = (if failed then Failed else Sent)" "transport_failures_only (outcomes s1)"
    "trace s1 = trace s @ cs" "next_handle s1 = next_handle s"
    "ping_interval s1 = ping_interval s" "failed \<longrightarrow> last_ping s1 = last_ping s"
    and shp: "(failed \<and> ws s1 = None
               \<and> (\<exists>e out. (e = WebSocketException \<or> e = OSError)
                     \<and> cs = [(Send c p, Some e), (Close c, out)]))
            \<or> (\<not> failed \<and> \<not> ping_interval s \<le> now - last_ping s \<and> ws s1 = Some c
                  \<and> cs = [(Send c p, None)])
            \<or> (\<not> failed \<and> ping_interval s \<le> now - last_ping s \<and> ws s1 = Some c
                  \<and> cs = [(Send c p, None), (Ping c, None)])
            \<or> (\<not> failed \<and> ping_interval s \<le> now - last_ping s \<and> ws s1 = None
                  \<and> (\<exists>e out. (e = WebSocketException \<or> e = OSError)
                        \<and> cs = [(Send c p, None), (Ping c, Some e), (Close c, out)]))"
    by (elim exE conjE) (rule that; assumption)
  have ac: "attempt_calls p (ping_interval s \<le> now - last_ping s) (Some c) (next_handle s)
              cs failed (ws s1)"
    using shp unfolding attempt_calls_def Let_def by auto
  have fl: "failed \<longrightarrow> last_ping s1 = last_ping s \<and> ws s1 = None"
    using sp(7) shp by auto
  show ?thesis
    unfolding Some sp(1)
    using sp(2,3,4,5,6) ac fl
    by (intro exI[of _ r] exI[of _ s1] exI[of _ cs] exI[of _ failed]) simp
next
  case None
  let ?n = "next_handle s"
  from connect_exact[OF assms]
  obtain r0 s0 where c: "connect s = (r0, s0)" "transport_failures_only (outcomes s0)"
    "next_handle s0 = Suc ?n" "last_ping s0 = last_ping s" "ping_interval s0 = ping_interval s"
    and sh: "(r0 = None \<and> ws s0 = Some ?n
                 \<and> trace s0 = trace s @ [(Connect ?n, None), (SetTimeout ?n, None)])
              \<or> (\<exists>e. r0 = Some e \<and> (e = WebSocketException \<or> e = OSError) \<and> ws s0 = ws s
                    \<and> trace s0 = trace s @ [(Connect ?n, Some e)])
              \<or> (\<exists>e. r0 = Some e \<and> (e = WebSocketException \<or> e = OSError)
                    \<and> ws s0 = Some ?n
                    \<and> trace s0 = trace s @ [(Connect ?n, None), (SetTimeout ?n, Some e)])"
    by blast
  from sh consider
      (ok) "r0 = None" "ws s0 = Some ?n"
        "trace s0 = trace s @ [(Connect ?n, None), (SetTimeout ?n, None)]"
    | (nocon) e where "r0 = Some e" "e = WebSocketException \<or> e = OSError" "ws s0 = None"
        "trace s0 = trace s @ [(Connect ?n, Some e)]"
    | (notime) e where "r0 = Some e" "e = WebSocketException \<or> e = OSError" "ws s0 = Some ?n"
        "trace s0 = trace s @ [(Connect ?n, None), (SetTimeout ?n, Some e)]"
    using None by auto
  then show ?thesis
  proof cases
    case ok
    have ts: "try_send p now s = try_send p now s0"
      using None c(1) ok(1,2) by (simp add: try_send_def ensure_def)
    have at: "attempt p now s = attempt p now s0" using ts by (simp add: attempt_def)
    from send_phase_exact[OF c(2) ok(2), of p now]
    obtain r s1 cs failed where sp: "attempt p now s0 = (r, s1)"
      "r = (if failed then Failed else Sent)" "transport_failures_only (outcomes s1)"
      "trace s1 = trace s0 @ cs" "next_handle s1 = next_handle s0"
      "ping_interval s1 = ping_interval s0" "failed \<longrightarrow> last_ping s1 = last_ping s0"
      and shp: "(failed \<and> ws s1 = None
                 \<and> (\<exists>e out. (e = WebSocketException \<or> e = OSError)
                       \<and> cs = [(Send ?n p, Some e), (Close ?n, out)]))
              \<or> (\<not> failed \<and> \<not> ping_interval s0 \<le> now - last_ping s0 \<and> ws s1 = Some ?n
                    \<and> cs = [(Send ?n p, None)])
              \<or> (\<not> failed \<and> ping_interval s0 \<le> now - last_ping s0 \<and> ws s1 = Some ?n
                    \<and> cs = [(Send ?n p, None), (Ping ?n, None)])
              \<or> (\<not> failed \<and> ping_interval s0 \<le> now - last_ping s0 \<and> ws s1 = None
                    \<and> (\<exists>e out. (e = WebSocketException \<or> e = OSError)
                          \<and> cs = [(Send ?n p, None), (Ping ?n, Some e), (Close ?n, out)]))"
      by (elim exE conjE) (rule that; assumption)
    let ?cs = "[(Connect ?n, None), (SetTimeout ?n, None)] @ cs"
    have tr: "trace s1 = trace s @ ?cs" using sp(4) ok(3) by simp
    have ac: "attempt_calls p (ping_interval s \<le> now - last_ping s) None ?n ?cs failed (ws s1)"
      using shp unfolding attempt_calls_def Let_def c(4) c(5) by auto
    have fl: "failed \<longrightarrow> last_ping s1 = last_ping s \<and> ws s1 = None"
      using sp(7) c(4) shp by auto
    show ?thesis
      unfolding None at sp(1)
      using sp(2,3,5,6) tr ac fl c(3,5)
      by (intro exI[of _ r] exI[of _ s1] exI[of _ ?cs] exI[of _ failed]) simp
  next
    case nocon
    have ts: "try_send p now s = (Some e, s0)"
      using None c(1) nocon(1) by (simp add: try_send_def ensure_def)
    have a: "attempt p now s = (Failed, s0\<lparr>ws := None\<rparr>)"
      using ts nocon(2,3) by (auto simp: attempt_def close_quietly_def)
    have ac: "attempt_calls p (ping_interval s \<le> now - last_ping s) None ?n
                [(Connect ?n, Some e)] True None"
      using nocon(2) unfolding attempt_calls_def Let_def by simp
    show ?thesis
      unfolding None a
      using c(2-5) nocon(4) ac
      by (intro exI[of _ Failed] exI[of _ "s0\<lparr>ws := None\<rparr>"]
          exI[of _ "[(Connect ?n, Some e)]"] exI[of _ True]) simp
  next
    case notime
    have ts: "try_send p now s = (Some e, s0)"
      using None c(1) notime(1) by (simp add: try_send_def ensure_def)
    from close_quietly_exact[OF c(2) notime(3)]
    obtain out s2 where cl: "close_quietly s0 = (None, s2)"
      "transport_failures_only (outcomes s2)" "trace s2 = trace s0 @ [(Close ?n, out)]"
      "ws s2 = None" "next_handle s2 = next_handle s0" "last_ping s2 = last_ping s0"
      "ping_interval s2 = ping_interval s0"
      by blast
    have a: "attempt p now s = (Failed, s2\<lparr>ws := None\<rparr>)"
      using ts notime(2) cl(1) by (auto simp: attempt_def)
    let ?cs = "[(Connect ?n, None), (SetTimeout ?n, Some e), (Close ?n, out)]"
    have ac: "attempt_calls p (ping_interval s \<le> now - last_ping s) None ?n ?cs True None"
      using notime(2) unfolding attempt_calls_def Let_def by auto
    have tr: "trace (s2\<lparr>ws := None\<rparr>) = trace s @ ?cs" using cl(3) notime(4) by simp
    show ?thesis
      unfolding None a
      using cl(2,5-7) c(3-5) tr ac
      by (intro exI[of _ Failed] exI[of _ "s2\<lparr>ws := None\<rparr>"] exI[of _ ?cs] exI[of _ True]) simp
  qed
qed

text \<open>\<open>send_grid\<close> is one attempt, and exactly one more if that one failed.\<close>

lemma send_grid_exact:
  assumes "transport_failures_only (outcomes s)"
  shows "\<exists>a1 a2 failed1 w1.
           new_calls s (snd (send_grid grid now s)) = a1 @ a2
           \<and> attempt_calls (grid_to_payload grid) (ping_interval s \<le> now - last_ping s)
                 (ws s) (next_handle s) a1 failed1 w1
           \<and> (if failed1
               then w1 = None
                    \<and> (\<exists>failed2. attempt_calls (grid_to_payload grid)
                          (ping_interval s \<le> now - last_ping s) None
                          (if ws s = None then Suc (next_handle s) else next_handle s)
                          a2 failed2 (ws (snd (send_grid grid now s))))
               else a2 = [] \<and> ws (snd (send_grid grid now s)) = w1)"
proof -
  let ?p = "grid_to_payload grid"
  from attempt_exact[OF assms, of ?p now]
  obtain r1 s1 a1 failed1 where x: "attempt ?p now s = (r1, s1)"
    "r1 = (if failed1 then Failed else Sent)" "transport_failures_only (outcomes s1)"
    "trace s1 = trace s @ a1"
    "next_handle s1 = (if ws s = None then Suc (next_handle s) else next_handle s)"
    "ping_interval s1 = ping_interval s" "failed1 \<longrightarrow> last_ping s1 = last_ping s \<and> ws s1 = None"
    "attempt_calls ?p (ping_interval s \<le> now - last_ping s) (ws s) (next_handle s) a1 failed1 (ws s1)"
    by (elim exE conjE) (rule that; assumption)
  show ?thesis
  proof (cases failed1)
    case False
    then have sg: "send_grid grid now s = (None, s1)"
      using x(1,2) by (simp add: send_grid_def)
    have n: "new_calls s s1 = a1 @ []" using x(4) by (simp add: new_calls_def)
    show ?thesis
      unfolding sg snd_conv n using x(8) False
      by (intro exI[of _ a1] exI[of _ "[]"] exI[of _ False] exI[of _ "ws s1"]) simp
  next
    case True
    from attempt_exact[OF x(3), of ?p now]
    obtain r2 s2 a2 failed2 where y: "attempt ?p now s1 = (r2, s2)"
      "r2 = (if failed2 then Failed else Sent)" "trace s2 = trace s1 @ a2"
      "attempt_calls ?p (ping_interval s1 \<le> now - last_ping s1) (ws s1) (next_handle s1)
         a2 failed2 (ws s2)"
      by (elim exE conjE) (rule that; assumption)
    have sg: "send_grid grid now s = (None, s2)"
      using x(1,2) True y(1,2) by (simp add: send_grid_def)
    have n: "new_calls s s2 = a1 @ a2" using x(4) y(3) by (simp add: new_calls_def)
    have w: "ws s1 = None" "last_ping s1 = last_ping s" using x(7) True by simp_all
    have ac2: "attempt_calls ?p (ping_interval s \<le> now - last_ping s) None
                 (if ws s = None then Suc (next_handle s) else next_handle s) a2 failed2 (ws s2)"
      using y(4) unfolding w x(5) x(6) .
    show ?thesis
      unfolding sg snd_conv n using x(8) True w(1) ac2
      by (intro exI[of _ a1] exI[of _ a2] exI[of _ True] exI[of _ None]) auto
  qed
qed

text \<open>The same in terms of the attempts: what the first one decides, and what is kept.\<close>

lemma send_grid_attempts:
  assumes "transport_failures_only (outcomes s)"
  shows "(let p = grid_to_payload grid;
              s1 = snd (attempt p now s);
              s2 = snd (attempt p now s1);
              s' = snd (send_grid grid now s)
          in fst (send_grid grid now s) = None
             \<and> length (sends (new_calls s s')) \<le> 2
             \<and> ((\<exists>h. (Send h p, None) \<in> set (new_calls s s')) \<or> ws s' = None)
             \<and> (fst (attempt p now s) = Sent \<longrightarrow> s' = s1)
             \<and> (fst (attempt p now s) = Failed \<longrightarrow>
                   ws s1 = None
                   \<and> (\<forall>h. ws s = Some h \<longrightarrow> (\<exists>out. (Close h, out) \<in> set (new_calls s s1)))
                   \<and> s' = s2
                   \<and> new_calls s1 s2 \<noteq> []
                   \<and> fst (hd (new_calls s1 s2)) = Connect (next_handle s1)
                   \<and> (fst (attempt p now s1) = Failed \<longrightarrow>
                         ws s' = None \<and> (\<forall>c\<in>set (sends (new_calls s s')). snd c \<noteq> None)))
             \<and> (ws s = None \<longrightarrow>
                   new_calls s s' \<noteq> [] \<and> fst (hd (new_calls s s')) = Connect (next_handle s)))"
proof -
  define p where "p = grid_to_payload grid"
  from attempt_cases[OF assms, of p now]
  obtain r1 s1 new1 where a1: "attempt p now s = (r1, s1)" "r1 = Sent \<or> r1 = Failed"
    "transport_failures_only (outcomes s1)" "trace s1 = trace s @ new1"
    "length (sends new1) \<le> 1"
    "r1 = Sent \<longrightarrow> (\<exists>h. (Send h p, None) \<in> set new1)"
    "r1 = Failed \<longrightarrow>
       ws s1 = None
       \<and> (\<forall>c\<in>set (sends new1). snd c \<noteq> None)
       \<and> (\<forall>h. ws s = Some h \<or> (Connect h, None) \<in> set new1 \<longrightarrow>
              (\<exists>out. (Close h, out) \<in> set new1))"
    "ws s = None \<longrightarrow> new1 \<noteq> [] \<and> fst (hd new1) = Connect (next_handle s)"
    by (elim exE conjE) (rule that; assumption)
  have n1: "new_calls s s1 = new1" using a1(4) by (rule new_calls_append)
  show ?thesis
  proof (cases "r1 = Sent")
    case True
    have sg: "send_grid grid now s = (None, s1)"
      using a1(1) True by (simp add: send_grid_def p_def)
    show ?thesis
      unfolding Let_def p_def[symmetric] sg using a1 True n1 by auto
  next
    case False
    then have F: "r1 = Failed" using a1(2) by simp
    then have w1: "ws s1 = None" using a1(7) by simp
    from attempt_cases[OF a1(3), of p now]
    obtain r2 s2 new2 where a2': "attempt p now s1 = (r2, s2)" "r2 = Sent \<or> r2 = Failed"
      "transport_failures_only (outcomes s2)" "trace s2 = trace s1 @ new2"
      "length (sends new2) \<le> 1"
      "r2 = Sent \<longrightarrow> (\<exists>h. (Send h p, None) \<in> set new2)"
      "r2 = Failed \<longrightarrow>
         ws s2 = None
         \<and> (\<forall>c\<in>set (sends new2). snd c \<noteq> None)
         \<and> (\<forall>h. ws s1 = Some h \<or> (Connect h, None) \<in> set new2 \<longrightarrow>
                (\<exists>out. (Close h, out) \<in> set new2))"
      "ws s1 = None \<longrightarrow> new2 \<noteq> [] \<and> fst (hd new2) = Connect (next_handle s1)"
      by (elim exE conjE) (rule that; assumption)
    have a2: "attempt p now s1 = (r2, s2)" "r2 = Sent \<or> r2 = Failed"
      "trace s2 = trace s1 @ new2" "length (sends new2) \<le> 1"
      "r2 = Sent \<longrightarrow> (\<exists>h. (Send h p, None) \<in> set new2)"
      "r2 = Failed \<longrightarrow> ws s2 = None \<and> (\<forall>c\<in>set (sends new2). snd c \<noteq> None)"
      "ws s1 = None \<longrightarrow> new2 \<noteq> [] \<and> fst (hd new2) = Connect (next_handle s1)"
      using a2' by blast+
    have sg: "send_grid grid now s = (None, s2)"
      using a1(1) F a2(1) a2(2) by (auto simp: send_grid_def p_def)
    have n2: "new_calls s1 s2 = new2" using a2(3) by (rule new_calls_append)
    have n: "new_calls s s2 = new1 @ new2"
      using a1(4) a2(3) by (intro new_calls_append) simp
    have len: "length (sends (new1 @ new2)) \<le> 2"
      using a1(5) a2(4) by (simp add: sends_append)
    have del: "(\<exists>h. (Send h p, None) \<in> set (new1 @ new2)) \<or> ws s2 = None"
      using a2(2) a2(5) a2(6) by auto
    have cl: "\<forall>h. ws s = Some h \<longrightarrow> (\<exists>out. (Close h, out) \<in> set new1)"
      using a1(7) F by blast
    have both: "r2 = Failed \<longrightarrow> ws s2 = None \<and> (\<forall>c\<in>set (sends (new1 @ new2)). snd c \<noteq> None)"
      using a1(7) F a2(6) by (auto simp: sends_append)
    have hd2: "new2 \<noteq> [] \<and> fst (hd new2) = Connect (next_handle s1)"
      using a2(7) w1 by simp
    have hd: "ws s = None \<longrightarrow> new1 @ new2 \<noteq> [] \<and> fst (hd (new1 @ new2)) = Connect (next_handle s)"
      using a1(8) by simp
    show ?thesis
      unfolding Let_def p_def[symmetric] sg a1(1) a2(1) fst_conv snd_conv n n1 n2
      using F w1 len del cl both hd2 hd by simp
  qed
qed

text \<open>
  Claim C4. When every failure of a library call is a transport failure (WebSocketException
  or OSError), \<open>send_grid\<close> returns without an exception, for every grid, time and state.
  The library calls it makes are those of one attempt of the spec's algorithm and, if that
  attempt failed, of exactly one more attempt, which starts without a connection: it
  connects anew and, once connected, transmits the payload again. An attempt that fails has
  closed the connection it held or opened, and keeps none; so after two failures no
  connection is kept and no transmission succeeded. If the first attempt succeeds, that is
  the whole call. It transmits at most twice; either a transmission of the payload succeeded
  or no connection is kept; and a call made without a connection starts by opening a new one.
\<close>

theorem send_grid_never_raises_retries_once:
  assumes "transport_failures_only (outcomes s)"
  shows "(let p = grid_to_payload grid;
              s1 = snd (attempt p now s);
              s2 = snd (attempt p now s1);
              s' = snd (send_grid grid now s)
          in (\<exists>a1 a2 failed1 w1.
                new_calls s s' = a1 @ a2
                \<and> attempt_calls p (ping_interval s \<le> now - last_ping s) (ws s) (next_handle s)
                      a1 failed1 w1
                \<and> (if failed1
                    then w1 = None
                         \<and> (\<exists>failed2. attempt_calls p (ping_interval s \<le> now - last_ping s) None
                               (if ws s = None then Suc (next_handle s) else next_handle s)
                               a2 failed2 (ws s'))
                    else a2 = [] \<and> ws s' = w1))
             \<and> fst (send_grid grid now s) = None
             \<and> length (sends (new_calls s s')) \<le> 2
             \<and> ((\<exists>h. (Send h p, None) \<in> set (new_calls s s')) \<or> ws s' = None)
             \<and> (fst (attempt p now s) = Sent \<longrightarrow> s' = s1)
             \<and> (fst (attempt p now s) = Failed \<longrightarrow>
                   ws s1 = None
                   \<and> (\<forall>h. ws s = Some h \<longrightarrow> (\<exists>out. (Close h, out) \<in> set (new_calls s s1)))
                   \<and> s' = s2
                   \<and> new_calls s1 s2 \<noteq> []
                   \<and> fst (hd (new_calls s1 s2)) = Connect (next_handle s1)
                   \<and> (fst (attempt p now s1) = Failed \<longrightarrow>
                         ws s' = None \<and> (\<forall>c\<in>set (sends (new_calls s s')). snd c \<noteq> None)))
             \<and> (ws s = None \<longrightarrow>
                   new_calls s s' \<noteq> [] \<and> fst (hd (new_calls s s')) = Connect (next_handle s)))"
  unfolding Let_def
  using send_grid_exact[OF assms, of grid now] send_grid_attempts[OF assms, of grid now, unfolded Let_def]
  by (rule conjI)

theorem send_grid_never_raises_retries_once_witness:
  "fst (send_grid empty_grid 5
     \<lparr>ws = Some 0, last_ping = 0, ping_interval = 20,
      outcomes = [Some OSError, None, None, None, Some WebSocketException, None],
      trace = [], next_handle = 1\<rparr>) = None
   \<and> trace (snd (send_grid empty_grid 5
     \<lparr>ws = Some 0, last_ping = 0, ping_interval = 20,
      outcomes = [Some OSError, None, None, None, Some WebSocketException, None],
      trace = [], next_handle = 1\<rparr>)) =
       [(Send 0 (grid_to_payload empty_grid), Some OSError), (Close 0, None),
        (Connect 1, None), (SetTimeout 1, None),
        (Send 1 (grid_to_payload empty_grid), Some WebSocketException), (Close 1, None)]
   \<and> ws (snd (send_grid empty_grid 5
     \<lparr>ws = Some 0, last_ping = 0, ping_interval = 20,
      outcomes = [Some OSError, None, None, None, Some WebSocketException, None],
      trace = [], next_handle = 1\<rparr>)) = None"
proof -
  let ?s = "\<lparr>ws = Some 0, last_ping = 0, ping_interval = 20,
      outcomes = [Some OSError, None, None, None, Some WebSocketException, None],
      trace = [], next_handle = 1\<rparr>"
  let ?p = "grid_to_payload empty_grid"
  have t: "transport_failures_only (outcomes ?s)"
    by (simp add: transport_failures_only_def)
  have a1: "attempt ?p 5 ?s =
      (Failed, \<lparr>ws = None, last_ping = 0, ping_interval = 20,
        outcomes = [None, None, Some WebSocketException, None],
        trace = [(Send 0 ?p, Some OSError), (Close 0, None)], next_handle = 1\<rparr>)"
    by (simp add: attempt_def try_send_def ensure_def lib_call_def close_quietly_def
        is_Exception_def)
  have a2: "attempt ?p 5 \<lparr>ws = None, last_ping = 0, ping_interval = 20,
        outcomes = [None, None, Some WebSocketException, None],
        trace = [(Send 0 ?p, Some OSError), (Close 0, None)], next_handle = 1\<rparr> =
      (Failed, \<lparr>ws = None, last_ping = 0, ping_interval = 20,
        outcomes = [],
        trace = [(Send 0 ?p, Some OSError), (Close 0, None), (Connect 1, None),
                 (SetTimeout 1, None), (Send 1 ?p, Some WebSocketException), (Close 1, None)],
        next_handle = 2\<rparr>)"
    by (simp add: attempt_def try_send_def ensure_def connect_def lib_call_def close_quietly_def
        is_Exception_def)
  from send_grid_never_raises_retries_once[OF t, of empty_grid 5]
  have r: "fst (send_grid empty_grid 5 ?s) = None"
    and f: "fst (attempt ?p 5 ?s) = Failed \<longrightarrow>
              snd (send_grid empty_grid 5 ?s) = snd (attempt ?p 5 (snd (attempt ?p 5 ?s)))"
    unfolding Let_def by blast+
  have "snd (send_grid empty_grid 5 ?s) = snd (attempt ?p 5 (snd (attempt ?p 5 ?s)))"
    using f unfolding a1 by simp
  then show ?thesis
    using r unfolding a1 snd_conv a2 by simp
qed

end
